theory Spec2Isabelle
  imports Main "HOL-Library.Word"
begin

unbundle bit_operations_syntax

section \<open>Constants, errors and the connection state\<close>

type_synonym byte = "8 word"

text \<open>
  Modelled from the spec: \<open>maxPacketSize\<close> is a constant of the package that is declared
  outside the two files under verification; the spec fixes it as \<open>2^24 - 1\<close>.
\<close>

definition maxPacketSize :: nat where
  "maxPacketSize = 16777215"

definition defaultDecompressBufferSize :: nat where
  "defaultDecompressBufferSize = 1024 * 16"

definition minCompressSize :: nat where
  "minCompressSize = 100"

definition packetHeaderSize :: nat where
  "packetHeaderSize = 4"

definition compressedHeaderSize :: nat where
  "compressedHeaderSize = 7"

text \<open>
  The error values the two files return or log. \<open>NetError\<close> stands for an error handed up
  by the transport (\<open>net.Conn\<close>), \<open>ZlibError\<close> for one handed up by the zlib codec,
  \<open>Canceled\<close> for the cause recorded in \<open>mc.canceled\<close>, \<open>EOF\<close> and
  \<open>ErrUnexpectedEOF\<close> for the two errors of \<open>io.ReadFull\<close>, and \<open>Panic\<close> for a Go
  run-time panic (index or slice bounds out of range).
\<close>

datatype error =
    ErrInvalidConn
  | ErrMalformPkt
  | ErrPktSync
  | ErrPktSyncMul
  | ErrPktTooLarge
  | ErrBadConn
  | errBadConnNoWrite
  | NetError nat
  | ZlibError nat
  | Canceled nat
  | EOF
  | ErrUnexpectedEOF
  | Panic

text \<open>What \<open>errLog.Print\<close> has been given.\<close>

datatype logentry =
    LogError error
  | LogBadIdle error

text \<open>
  The transport. One call of \<open>conn.Write(p)\<close> is answered by the next response of the
  connection: \<open>WriteAll\<close> accepts the whole of \<open>p\<close>, \<open>WriteSome n e\<close> accepts \<open>n\<close> bytes
  (at most \<open>len(p)\<close>) and returns the error \<open>e\<close>. The bytes accepted are appended to
  \<open>sent\<close>. When the responses are used up the call does not return, which is the value
  \<open>None\<close> of the functions below. \<open>SetWriteDeadline\<close>, \<open>SetReadDeadline\<close> and \<open>connCheck\<close>
  answer with the error stored in the record (\<open>None\<close> is Go's \<open>nil\<close>). An error of the
  transport is an error of the operating system or of package \<open>net\<close>, given here by a
  number \<open>k\<close> and seen by the program as \<open>NetError k\<close>; it is never one of the error
  values of this package.
\<close>

datatype wresp = WriteAll | WriteSome nat "nat option"

record netConn =
  responses :: "wresp list"
  sent :: "byte list"
  writeDeadlineErr :: "nat option"
  readDeadlineErr :: "nat option"
  connCheckErr :: "nat option"

text \<open>
  The fields of \<open>mysqlConn\<close> that the two files use. \<open>buf\<close> holds the bytes that the
  transport will still deliver to \<open>mc.buf.readNext\<close>, and \<open>bufErr\<close> the error with which a
  read ends when they do not suffice. \<open>isClosed\<close> is set by \<open>mc.Close()\<close> and
  \<open>mc.cleanup()\<close>; \<open>errLog\<close> collects what is printed to the package's logger.
\<close>

record mysqlConn =
  netConn :: netConn
  rawConn :: "netConn option"
  buf :: "byte list"
  bufErr :: error
  sequence :: byte
  compressionSequence :: byte
  maxAllowedPacket :: int
  writeTimeout :: int
  cfgReadTimeout :: int
  cfgCheckConnLiveness :: bool
  reset :: bool
  canceled :: "error option"
  isClosed :: bool
  errLog :: "logentry list"

text \<open>
  \<open>packetDecompressor\<close>: the slice \<open>buffer\<close> is its elements, its capacity and whether it
  is \<open>nil\<close>; \<open>decompressorSet\<close> says that \<open>pd.decompressor\<close> is not \<open>nil\<close>.
\<close>

record packetDecompressor =
  buffer :: "byte list"
  bufferCap :: nat
  bufferNil :: bool
  index :: nat
  decompressorSet :: bool

text \<open>
  \<open>packetCompressor\<close>: the contents of the \<open>bytes.Buffer\<close> and whether \<open>pc.compressor\<close>
  is not \<open>nil\<close>. The capacity of a \<open>bytes.Buffer\<close> never shows in its contents and is
  left out.
\<close>

record packetCompressor =
  cbuffer :: "byte list"
  compressorSet :: bool

record packetTransceiver =
  compressor :: packetCompressor
  decompressor :: packetDecompressor

text \<open>
  The zlib codec is the Go standard library's. A \<open>zlibWriter\<close> gives, for an input, the
  bytes that \<open>zlib.Writer\<close> appends to its sink until \<open>Close\<close> returns, and the error it
  stops with, if any. A \<open>zlibReader\<close> gives, for a compressed input, the bytes the
  \<open>zlib\<close> reader yields and the error it ends with (\<open>None\<close> for a clean end of stream).
\<close>

type_synonym zlibWriter = "byte list \<Rightarrow> byte list \<times> error option"
type_synonym zlibReader = "byte list \<Rightarrow> byte list \<times> error option"

section \<open>sendToNetwork\<close>

fun connWrite :: "wresp \<Rightarrow> byte list \<Rightarrow> nat \<times> error option" where
  "connWrite WriteAll p = (length p, None)"
| "connWrite (WriteSome n e) p = (min n (length p), map_option NetError e)"

fun sendLoop :: "wresp list \<Rightarrow> byte list \<Rightarrow> byte list \<Rightarrow> nat
    \<Rightarrow> ((nat \<times> error option) \<times> wresp list \<times> byte list) option" where
  "sendLoop rs out data i =
     (if i < length data then
        (case rs of
           [] \<Rightarrow> None
         | r # rs' \<Rightarrow>
             (let (n, err) = connWrite r (drop i data);
                  out' = out @ take n (drop i data);
                  i' = i + n
              in if err \<noteq> None then Some ((i', err), rs', out')
                 else sendLoop rs' out' data i'))
      else Some ((length data, None), rs, out))"

declare sendLoop.simps [simp del]

definition sendToNetwork :: "netConn \<Rightarrow> byte list
    \<Rightarrow> ((nat \<times> error option) \<times> netConn) option" where
  "sendToNetwork conn data =
     (case sendLoop (responses conn) (sent conn) data 0 of
        None \<Rightarrow> None
      | Some (r, rs, out) \<Rightarrow> Some (r, conn\<lparr>responses := rs, sent := out\<rparr>))"

section \<open>The compressed packet header\<close>

text \<open>A \<open>compressedPacketHeader\<close> is a list of seven bytes.\<close>

definition le24 :: "byte \<Rightarrow> byte \<Rightarrow> byte \<Rightarrow> nat" where
  "le24 a b c =
     unat ((ucast a :: 32 word) OR push_bit 8 (ucast b :: 32 word) OR push_bit 16 (ucast c :: 32 word))"

definition payload :: "byte list \<Rightarrow> nat" where
  "payload h = le24 (h ! 0) (h ! 1) (h ! 2)"

definition hsequence :: "byte list \<Rightarrow> byte" where
  "hsequence h = h ! 3"

definition uncompressedLength :: "byte list \<Rightarrow> nat" where
  "uncompressedLength h = le24 (h ! 4) (h ! 5) (h ! 6)"

definition setPayload :: "byte list \<Rightarrow> nat \<Rightarrow> byte list" where
  "setPayload h p = h[0 := of_nat p, 1 := of_nat (drop_bit 8 p), 2 := of_nat (drop_bit 16 p)]"

definition setSequence :: "byte list \<Rightarrow> byte \<Rightarrow> byte list" where
  "setSequence h s = h[3 := s]"

definition setUncompressedLength :: "byte list \<Rightarrow> nat \<Rightarrow> byte list" where
  "setUncompressedLength h p = h[4 := of_nat p, 5 := of_nat (drop_bit 8 p), 6 := of_nat (drop_bit 16 p)]"

definition zeroHeader :: "byte list" where
  "zeroHeader = replicate 7 0"

text \<open>The three little-endian bytes as a number, and back.\<close>

lemma or_push_nat: "take_bit n (x::nat) OR push_bit n y = take_bit n x + push_bit n y"
proof -
  have "take_bit n x AND push_bit n y = 0"
    by (simp add: bit_eq_iff bit_simps)
  then show ?thesis
    by (simp add: disjunctive_add_eq_or)
qed

lemma byte_lt: "unat (a::byte) < 256"
  using unsigned_less [of a, where ?'a = nat] by simp

lemma or_push_byte: "unat (a::byte) OR push_bit 8 y = unat a + 256 * y"
proof -
  have "take_bit 8 (unat a) = unat a"
    using byte_lt [of a] by (simp add: take_bit_nat_eq_self)
  with or_push_nat [of 8 "unat a" y] show ?thesis
    by (simp add: push_bit_eq_mult)
qed

lemma le24_eq: "le24 a b c = unat a + 256 * unat b + 65536 * unat c"
proof -
  have tb: "take_bit 32 (unat a) = unat a" "take_bit 32 (unat b) = unat b"
      "take_bit 32 (unat c) = unat c"
    using byte_lt [of a] byte_lt [of b] byte_lt [of c] by (simp_all add: take_bit_nat_eq_self)
  have p1: "take_bit 32 (push_bit 8 (unat b)) = push_bit 8 (unat b)"
    using byte_lt [of b] by (simp add: take_bit_nat_eq_self push_bit_eq_mult)
  have p2: "take_bit 32 (push_bit 16 (unat c)) = push_bit 16 (unat c)"
    using byte_lt [of c] by (simp add: take_bit_nat_eq_self push_bit_eq_mult)
  have "le24 a b c = unat a OR push_bit 8 (unat b) OR push_bit 16 (unat c)"
    by (simp add: le24_def unsigned_or_eq unsigned_push_bit_eq unsigned_ucast_eq tb p1 p2)
  also have "\<dots> = unat a OR push_bit 8 (unat b OR push_bit 8 (unat c))"
    by (simp add: push_bit_or push_bit_push_bit or.assoc)
  also have "\<dots> = unat a + 256 * unat b + 65536 * unat c"
    by (simp add: or_push_byte)
  finally show ?thesis .
qed


lemma le24_bound: "le24 a b c < 16777216"
  using byte_lt [of a] byte_lt [of b] byte_lt [of c] by (simp add: le24_eq)

lemma split24:
  fixes n :: nat
  shows "n mod 256 + 256 * (n div 256 mod 256) + 65536 * (n div 65536) = n"
proof -
  define q where "q = n div 256"
  define r where "r = n mod 256"
  define q2 where "q2 = q div 256"
  define r2 where "r2 = q mod 256"
  have e1: "n = 256 * q + r" by (simp add: q_def r_def)
  have e2: "q = 256 * q2 + r2" by (simp add: q2_def r2_def)
  have e3: "n div 65536 = q2"
    using div_mult2_eq [of n 256 256] by (simp add: q_def q2_def)
  have "r + 256 * r2 + 65536 * q2 = n"
    by (simp add: e1 e2)
  then show ?thesis
    by (simp add: e3) (simp add: q_def r_def r2_def)
qed

lemma le24_encode:
  assumes "n < 16777216"
  shows "le24 (of_nat n) (of_nat (drop_bit 8 n)) (of_nat (drop_bit 16 n)) = n"
proof -
  have "n div 65536 < 256" using assms by simp
  then have "n div 65536 mod 256 = n div 65536" by simp
  then show ?thesis
    using split24 [of n] by (simp add: le24_eq unat_of_nat drop_bit_eq_div)
qed


section \<open>The zlib wrappers\<close>

text \<open>
  \<open>sysZLibCompressor.compress\<close>: the sink keeps what was written to it before an error,
  and the length returned is \<open>0\<close> with an error, \<open>output.Len() - lenSave\<close> without.
\<close>

definition compress :: "zlibWriter \<Rightarrow> byte list \<Rightarrow> byte list
    \<Rightarrow> (nat \<times> error option) \<times> byte list" where
  "compress zw input output =
     (let lenSave = length output;
          (written, err) = zw input;
          output' = output @ written
      in case err of
           Some e \<Rightarrow> ((0, Some e), output')
         | None \<Rightarrow> ((length output' - lenSave, None), output'))"

text \<open>
  \<open>sysZLibDecompressor.decompress\<close> fills an output of \<open>n\<close> bytes with \<open>io.ReadFull\<close>:
  the first \<open>n\<close> bytes of the stream, or the stream's error when it ends before
  (\<open>EOF\<close> when nothing was read, \<open>ErrUnexpectedEOF\<close> after a clean but early end).
\<close>

definition decompress :: "zlibReader \<Rightarrow> byte list \<Rightarrow> nat \<Rightarrow> error + byte list" where
  "decompress zr input n =
     (let (stream, err) = zr input
      in if n \<le> length stream then Inr (take n stream)
         else (case err of
                 Some e \<Rightarrow> Inl e
               | None \<Rightarrow> if stream = [] then Inl EOF else Inl ErrUnexpectedEOF))"

section \<open>packetDecompressor\<close>

text \<open>
  Modelled from the spec: \<open>mc.buf.readNext\<close> is the transport's byte-range reader
  ("give me exactly N bytes"), defined outside the two files.
\<close>

definition buf_readNext :: "mysqlConn \<Rightarrow> nat \<Rightarrow> (error + byte list) \<times> mysqlConn" where
  "buf_readNext mc need =
     (if length (buf mc) < need then (Inl (bufErr mc), mc)
      else (Inr (take need (buf mc)), mc\<lparr>buf := drop need (buf mc)\<rparr>))"

text \<open>
  \<open>grow\<close>. With \<open>index > len(buffer)\<close> both branches slice out of range and panic.
\<close>

definition grow :: "packetDecompressor \<Rightarrow> nat \<Rightarrow> error + packetDecompressor" where
  "grow pd dataLength =
     (if length (buffer pd) + dataLength > bufferCap pd then
        if index pd > length (buffer pd) then Inl Panic
        else if length (buffer pd) - index pd + dataLength \<le> bufferCap pd then
          (let newLength = length (buffer pd) - index pd
           in Inr (pd\<lparr>buffer := take newLength (drop (index pd) (buffer pd)), index := 0\<rparr>))
        else
          Inr (pd\<lparr>buffer := drop (index pd) (buffer pd),
                  bufferCap := length (buffer pd) - index pd + dataLength,
                  bufferNil := False,
                  index := 0\<rparr>)
      else Inr pd)"

text \<open>
  \<open>decompressPacket\<close>. After \<open>grow\<close> the new bytes fit the capacity, so \<open>append\<close> and the
  re-slicing \<open>pd.buffer[:len+length]\<close> extend the slice in place.
\<close>

definition decompressPacket :: "zlibReader \<Rightarrow> packetDecompressor \<Rightarrow> mysqlConn
    \<Rightarrow> error option \<times> packetDecompressor \<times> mysqlConn" where
  "decompressPacket zr pd mc =
     (let pd1 = (if bufferNil pd
                 then pd\<lparr>buffer := [], bufferCap := defaultDecompressBufferSize, bufferNil := False\<rparr>
                 else pd);
          pd2 = (if index pd1 > 0 \<and> index pd1 = length (buffer pd1)
                 then pd1\<lparr>index := 0, buffer := []\<rparr>
                 else pd1)
      in case buf_readNext mc 7 of
           (Inl err, mc1) \<Rightarrow> (Some err, pd2, mc1)
         | (Inr header, mc1) \<Rightarrow>
             if hsequence header \<noteq> compressionSequence mc1 then
               (if hsequence header > compressionSequence mc1
                then (Some ErrPktSyncMul, pd2, mc1)
                else (Some ErrPktSync, pd2, mc1))
             else
               (let mc2 = mc1\<lparr>compressionSequence := compressionSequence mc1 + 1\<rparr>
                in case buf_readNext mc2 (payload header) of
                     (Inl err, mc3) \<Rightarrow> (Some err, pd2, mc3)
                   | (Inr data, mc3) \<Rightarrow>
                       if uncompressedLength header = 0 then
                         (case grow pd2 (payload header) of
                            Inl e \<Rightarrow> (Some e, pd2, mc3)
                          | Inr pd3 \<Rightarrow> (None, pd3\<lparr>buffer := buffer pd3 @ data\<rparr>, mc3))
                       else
                         (case grow pd2 (uncompressedLength header) of
                            Inl e \<Rightarrow> (Some e, pd2, mc3)
                          | Inr pd3 \<Rightarrow>
                              (let pd4 = pd3\<lparr>decompressorSet := True\<rparr>
                               in case decompress zr data (uncompressedLength header) of
                                    Inl err \<Rightarrow> (Some err, pd4, mc3)
                                  | Inr bytes \<Rightarrow> (None, pd4\<lparr>buffer := buffer pd4 @ bytes\<rparr>, mc3)))))"

text \<open>
  \<open>readNext\<close> of the decompressor: the loop pulls frames until the pending bytes
  suffice. Every frame pulled takes at least its seven header bytes from the
  transport's input, which is why the loop ends.
\<close>

lemma decompressPacket_consumes:
  "decompressPacket zr pd mc = (None, pd', mc') \<Longrightarrow> length (buf mc') < length (buf mc)"
  by (auto simp: decompressPacket_def buf_readNext_def Let_def
      split: if_splits sum.splits prod.splits)

function pd_readNext_loop :: "zlibReader \<Rightarrow> packetDecompressor \<Rightarrow> mysqlConn \<Rightarrow> nat
    \<Rightarrow> error option \<times> packetDecompressor \<times> mysqlConn" where
  "pd_readNext_loop zr pd mc need =
     (case decompressPacket zr pd mc of
        (Some err, pd', mc') \<Rightarrow> (Some err, pd', mc')
      | (None, pd', mc') \<Rightarrow>
          if int (length (buffer pd')) - int (index pd') \<ge> int need then (None, pd', mc')
          else pd_readNext_loop zr pd' mc' need)"
  by pat_completeness auto
termination
  by (relation "measure (\<lambda>(zr, pd, mc, need). length (buf mc))")
    (auto dest: decompressPacket_consumes [OF sym])

definition pd_readNext :: "zlibReader \<Rightarrow> packetDecompressor \<Rightarrow> mysqlConn \<Rightarrow> nat
    \<Rightarrow> (error + byte list) \<times> packetDecompressor \<times> mysqlConn" where
  "pd_readNext zr pd mc need =
     (case (if int (length (buffer pd)) - int (index pd) < int need
            then pd_readNext_loop zr pd mc need
            else (None, pd, mc)) of
        (Some err, pd', mc') \<Rightarrow> (Inl err, pd', mc')
      | (None, pd', mc') \<Rightarrow>
          (Inr (take need (drop (index pd') (buffer pd'))),
           pd'\<lparr>index := index pd' + need\<rparr>, mc'))"

section \<open>packetCompressor\<close>

text \<open>Go's built-in \<open>copy(dst, src)\<close>, as the new contents of \<open>dst\<close>.\<close>

definition go_copy :: "byte list \<Rightarrow> byte list \<Rightarrow> byte list" where
  "go_copy dst src = (let n = min (length dst) (length src) in take n src @ drop n dst)"

text \<open>
  \<open>writeToBuffer\<close>. \<open>bytes.Buffer.Write\<close> always returns a \<open>nil\<close> error, so the two
  error returns of the literal path have no branch here.
\<close>

function writeToBuffer :: "zlibWriter \<Rightarrow> packetCompressor \<Rightarrow> byte list \<Rightarrow> byte \<Rightarrow> bool
    \<Rightarrow> (error + nat) \<times> packetCompressor" where
  "writeToBuffer zw pc data seq compr =
     (let pc1 = pc\<lparr>cbuffer := []\<rparr>
      in if \<not> compr then
           (let size = (if length data \<ge> maxPacketSize then maxPacketSize else length data);
                header = setUncompressedLength (setSequence (setPayload zeroHeader size) seq) 0
            in (Inr size, pc1\<lparr>cbuffer := (cbuffer pc1 @ header) @ take size data\<rparr>))
         else
           (let pc2 = pc1\<lparr>compressorSet := True\<rparr>;
                pc3 = pc2\<lparr>cbuffer := cbuffer pc2 @ zeroHeader\<rparr>;
                ((compressedLength, err), output) = compress zw data (cbuffer pc3);
                pc4 = pc3\<lparr>cbuffer := output\<rparr>
            in if compressedLength > maxPacketSize \<or> compressedLength > length data then
                 writeToBuffer zw pc4 data seq False
               else
                 (let header = setUncompressedLength
                                 (setSequence (setPayload zeroHeader compressedLength) seq)
                                 (length data)
                  in (Inr (length data), pc4\<lparr>cbuffer := go_copy (cbuffer pc4) header\<rparr>))))"
  by pat_completeness auto
termination
  by (relation "measure (\<lambda>(zw, pc, data, seq, compr). if compr then 1 else 0)") auto

declare writeToBuffer.simps [simp del]

text \<open>\<open>SetWriteDeadline\<close> is called only with a write timeout configured.\<close>

definition setWriteDeadline :: "mysqlConn \<Rightarrow> error option" where
  "setWriteDeadline mc =
     (if writeTimeout mc > 0 then map_option NetError (writeDeadlineErr (netConn mc)) else None)"

lemma writeToBuffer_progress:
  "writeToBuffer zw pc data seq compr = (Inr n, pc') \<Longrightarrow> data \<noteq> [] \<Longrightarrow> 0 < n"
  by (cases compr)
    (auto simp: writeToBuffer.simps Let_def maxPacketSize_def split: if_splits prod.splits)

function pc_writePacket_loop :: "zlibWriter \<Rightarrow> packetCompressor \<Rightarrow> mysqlConn \<Rightarrow> byte list
    \<Rightarrow> nat \<Rightarrow> ((nat \<times> error option) \<times> packetCompressor \<times> mysqlConn) option" where
  "pc_writePacket_loop zw pc mc packet i =
     (if i < length packet then
        (let remain = length packet - i
         in case writeToBuffer zw pc (drop i packet) (compressionSequence mc)
                   (remain < minCompressSize) of
              (Inl err, pc') \<Rightarrow> Some ((i, Some err), pc', mc)
            | (Inr bytesWritten, pc') \<Rightarrow>
                (case setWriteDeadline mc of
                   Some err \<Rightarrow> Some ((i, Some err), pc', mc)
                 | None \<Rightarrow>
                     (case sendToNetwork (netConn mc) (cbuffer pc') of
                        None \<Rightarrow> None
                      | Some ((n, err), conn') \<Rightarrow>
                          (let mc' = mc\<lparr>netConn := conn'\<rparr>
                           in if err \<noteq> None then Some ((i, err), pc', mc')
                              else if n \<noteq> length (cbuffer pc')
                              then Some ((i, Some ErrInvalidConn), pc', mc')
                              else pc_writePacket_loop zw pc'
                                     (mc'\<lparr>compressionSequence := compressionSequence mc' + 1\<rparr>)
                                     packet (i + bytesWritten)))))
      else Some ((length packet, None), pc, mc))"
  by pat_completeness auto
termination
  by (relation "measure (\<lambda>(zw, pc, mc, packet, i). length packet - i)")
    (auto dest!: writeToBuffer_progress [OF sym])

declare pc_writePacket_loop.simps [simp del]

definition pc_writePacket :: "zlibWriter \<Rightarrow> packetCompressor \<Rightarrow> mysqlConn \<Rightarrow> byte list
    \<Rightarrow> ((nat \<times> error option) \<times> packetCompressor \<times> mysqlConn) option" where
  "pc_writePacket zw pc mc packet =
     (if length packet = 0 then Some ((0, None), pc, mc)
      else pc_writePacket_loop zw pc mc packet 0)"

section \<open>packetTransceiver\<close>

text \<open>
  The two places where \<open>readPacket\<close> reads (header and body) choose between the
  decompressor and the transport in the same way, and handle a failed read in the
  same way.
\<close>

definition readBytes :: "zlibReader \<Rightarrow> packetTransceiver \<Rightarrow> mysqlConn \<Rightarrow> bool \<Rightarrow> nat
    \<Rightarrow> (error + byte list) \<times> packetTransceiver \<times> mysqlConn" where
  "readBytes zr pb mc compr n =
     (if compr then
        (case pd_readNext zr (decompressor pb) mc n of
           (r, pd', mc') \<Rightarrow> (r, pb\<lparr>decompressor := pd'\<rparr>, mc'))
      else
        (case buf_readNext mc n of (r, mc') \<Rightarrow> (r, pb, mc')))"

text \<open>
  Modelled from the spec: \<open>mc.Close()\<close> and \<open>mc.cleanup()\<close> are the connection's
  "close/cleanup operation invoked on fatal errors", defined outside the two files.
\<close>

definition closeConn :: "mysqlConn \<Rightarrow> mysqlConn" where
  "closeConn mc = mc\<lparr>isClosed := True\<rparr>"

definition errLogPrint :: "logentry \<Rightarrow> mysqlConn \<Rightarrow> mysqlConn" where
  "errLogPrint e mc = mc\<lparr>errLog := errLog mc @ [e]\<rparr>"

definition readFailed :: "mysqlConn \<Rightarrow> error \<Rightarrow> error \<times> mysqlConn" where
  "readFailed mc err =
     (case canceled mc of
        Some cerr \<Rightarrow> (cerr, mc)
      | None \<Rightarrow> (ErrInvalidConn, closeConn (errLogPrint (LogError err) mc)))"

text \<open>\<open>append(prevData, data...)\<close> on a slice that may be \<open>nil\<close> (\<open>None\<close>).\<close>

definition go_append :: "byte list option \<Rightarrow> byte list \<Rightarrow> byte list option" where
  "go_append prev data =
     (case prev of
        None \<Rightarrow> if data = [] then None else Some data
      | Some p \<Rightarrow> Some (p @ data))"

definition pending :: "packetTransceiver \<Rightarrow> nat" where
  "pending pb = length (buffer (decompressor pb)) - index (decompressor pb)"

declare pd_readNext_loop.simps [simp del]

lemma pd_readNext_loop_consumes:
  "pd_readNext_loop zr pd mc need = (None, pd', mc') \<Longrightarrow> length (buf mc') < length (buf mc)"
proof (induction zr pd mc need rule: pd_readNext_loop.induct)
  case (1 zr pd mc need)
  obtain r pd1 mc1 where d: "decompressPacket zr pd mc = (r, pd1, mc1)"
    by (cases "decompressPacket zr pd mc") auto
  show ?case
  proof (cases r)
    case (Some e)
    with d "1.prems" show ?thesis
      by (simp add: pd_readNext_loop.simps [of zr pd mc])
  next
    case None
    with d have lt: "length (buf mc1) < length (buf mc)"
      by (auto dest: decompressPacket_consumes)
    show ?thesis
    proof (cases "int need \<le> int (length (buffer pd1)) - int (index pd1)")
      case True
      with d None "1.prems" lt show ?thesis
        by (simp add: pd_readNext_loop.simps [of zr pd mc])
    next
      case False
      with d None "1.prems" have rec: "pd_readNext_loop zr pd1 mc1 need = (None, pd', mc')"
        by (simp add: pd_readNext_loop.simps [of zr pd mc])
      have "length (buf mc') < length (buf mc1)"
        by (rule "1.IH" [OF d [symmetric] None refl False rec])
      with lt show ?thesis by simp
    qed
  qed
qed

lemma readBytes_decreases:
  assumes "readBytes zr pb mc compr n = (Inr d, pb', mc')"
  shows "length (buf mc') < length (buf mc)
     \<or> (length (buf mc') = length (buf mc) \<and> pending pb' + n = pending pb)"
  using assms
  by (auto simp: readBytes_def pd_readNext_def buf_readNext_def pending_def
      split: if_splits prod.splits option.splits dest: pd_readNext_loop_consumes)

function readPacket_loop :: "zlibReader \<Rightarrow> packetTransceiver \<Rightarrow> mysqlConn \<Rightarrow> bool
    \<Rightarrow> byte list option \<Rightarrow> (error + byte list) \<times> packetTransceiver \<times> mysqlConn" where
  "readPacket_loop zr pb mc compr prevData =
     (case readBytes zr pb mc compr 4 of
        (Inl err, pb1, mc1) \<Rightarrow>
          (case readFailed mc1 err of (e, mc2) \<Rightarrow> (Inl e, pb1, mc2))
      | (Inr data, pb1, mc1) \<Rightarrow>
          (let pktLen = le24 (data ! 0) (data ! 1) (data ! 2)
           in if data ! 3 \<noteq> sequence mc1 then
                (if data ! 3 > sequence mc1
                 then (Inl ErrPktSyncMul, pb1, mc1)
                 else (Inl ErrPktSync, pb1, mc1))
              else
                (let mc2 = mc1\<lparr>sequence := sequence mc1 + 1\<rparr>
                 in if pktLen = 0 then
                      (case prevData of
                         None \<Rightarrow>
                           (Inl ErrInvalidConn, pb1,
                            closeConn (errLogPrint (LogError ErrMalformPkt) mc2))
                       | Some prev \<Rightarrow> (Inr prev, pb1, mc2))
                    else
                      (case readBytes zr pb1 mc2 compr pktLen of
                         (Inl err, pb2, mc3) \<Rightarrow>
                           (case readFailed mc3 err of (e, mc4) \<Rightarrow> (Inl e, pb2, mc4))
                       | (Inr body, pb2, mc3) \<Rightarrow>
                           if pktLen < maxPacketSize then
                             (case prevData of
                                None \<Rightarrow> (Inr body, pb2, mc3)
                              | Some prev \<Rightarrow> (Inr (prev @ body), pb2, mc3))
                           else
                             readPacket_loop zr pb2 mc3 compr (go_append prevData body)))))"
  by pat_completeness auto
termination
  apply (relation "measures [\<lambda>(zr, pb, mc, compr, prevData). length (buf mc),
                             \<lambda>(zr, pb, mc, compr, prevData). pending pb]")
   apply simp
  apply (auto dest!: readBytes_decreases [OF sym])
  done

declare readPacket_loop.simps [simp del]

definition readPacket :: "zlibReader \<Rightarrow> packetTransceiver \<Rightarrow> mysqlConn \<Rightarrow> bool
    \<Rightarrow> (error + byte list) \<times> packetTransceiver \<times> mysqlConn" where
  "readPacket zr pb mc compr = readPacket_loop zr pb mc compr None"

text \<open>
  \<open>writePacket\<close> of the transceiver. The loop keeps both \<open>pktLen\<close> and the slice
  \<open>data\<close>, as the source does. Its body is given in four parts: the payload size of the
  next frame, the header written into \<open>data\<close> in place, the hand-over of the frame
  \<open>data[:4+size]\<close> to the transport or to the compressor, and the handling of a write
  that did not go through. Writing the header panics on a slice of fewer than four
  bytes.
\<close>

definition frameSize :: "int \<Rightarrow> int" where
  "frameSize pktLen = (if pktLen \<ge> int maxPacketSize then int maxPacketSize else pktLen)"

definition putHeader :: "byte list \<Rightarrow> int \<Rightarrow> byte \<Rightarrow> byte list" where
  "putHeader data pktLen seq =
     (let data1 = (if pktLen \<ge> int maxPacketSize
                   then data[0 := 0xff, 1 := 0xff, 2 := 0xff]
                   else data[0 := of_int pktLen,
                             1 := of_int (drop_bit 8 pktLen),
                             2 := of_int (drop_bit 16 pktLen)])
      in data1[3 := seq])"

text \<open>
  The result of \<open>sendFrame\<close> is \<open>Inl err\<close> when \<open>SetWriteDeadline\<close> fails, which
  \<open>writePacket\<close> returns as it is, and otherwise \<open>n, err\<close> with the new state.
\<close>

definition sendFrame :: "zlibWriter \<Rightarrow> packetTransceiver \<Rightarrow> mysqlConn \<Rightarrow> byte list \<Rightarrow> bool
    \<Rightarrow> (error + ((nat \<times> error option) \<times> packetTransceiver \<times> mysqlConn)) option" where
  "sendFrame zw pb mc frame compr =
     (if \<not> compr then
        (case setWriteDeadline mc of
           Some err \<Rightarrow> Some (Inl err)
         | None \<Rightarrow>
             (case sendToNetwork (netConn mc) frame of
                None \<Rightarrow> None
              | Some (r, conn') \<Rightarrow> Some (Inr (r, pb, mc\<lparr>netConn := conn'\<rparr>))))
      else
        (case pc_writePacket zw (compressor pb) mc frame of
           None \<Rightarrow> None
         | Some (r, pc', mc') \<Rightarrow> Some (Inr (r, pb\<lparr>compressor := pc'\<rparr>, mc'))))"

text \<open>
  The "Handle error" part, reached when not (\<open>err == nil\<close> and \<open>n == 4+size\<close>);
  \<open>dataLen\<close> is \<open>len(data)\<close>.
\<close>

definition writeFailed :: "mysqlConn \<Rightarrow> nat \<Rightarrow> error option \<Rightarrow> int \<Rightarrow> nat
    \<Rightarrow> error \<times> mysqlConn" where
  "writeFailed mc n err pktLen dataLen =
     (case err of
        None \<Rightarrow> (ErrInvalidConn, errLogPrint (LogError ErrMalformPkt) (closeConn mc))
      | Some e \<Rightarrow>
          (case canceled mc of
             Some cerr \<Rightarrow> (cerr, mc)
           | None \<Rightarrow>
               if n = 0 \<and> pktLen = int dataLen - 4 then (errBadConnNoWrite, mc)
               else (ErrInvalidConn, errLogPrint (LogError e) (closeConn mc))))"

function writePacket_loop :: "zlibWriter \<Rightarrow> packetTransceiver \<Rightarrow> mysqlConn \<Rightarrow> byte list
    \<Rightarrow> int \<Rightarrow> bool \<Rightarrow> (error option \<times> packetTransceiver \<times> mysqlConn) option" where
  "writePacket_loop zw pb mc data pktLen compr =
     (if length data < 4 then Some (Some Panic, pb, mc)
      else
        (let size = frameSize pktLen;
             data' = putHeader data pktLen (sequence mc)
         in if 4 + size < 0 \<or> 4 + size > int (length data') then Some (Some Panic, pb, mc)
            else
              (case sendFrame zw pb mc (take (nat (4 + size)) data') compr of
                 None \<Rightarrow> None
               | Some (Inl err) \<Rightarrow> Some (Some err, pb, mc)
               | Some (Inr ((n, err), pb1, mc1)) \<Rightarrow>
                   if err = None \<and> int n = 4 + size then
                     (let mc2 = mc1\<lparr>sequence := sequence mc1 + 1\<rparr>
                      in if size \<noteq> int maxPacketSize then Some (None, pb1, mc2)
                         else writePacket_loop zw pb1 mc2 (drop (nat size) data')
                                (pktLen - size) compr)
                   else
                     (case writeFailed mc1 n err pktLen (length data') of
                        (e, mc2) \<Rightarrow> Some (Some e, pb1, mc2)))))"
  by pat_completeness auto
termination
  by (relation "measure (\<lambda>(zw, pb, mc, data, pktLen, compr). nat pktLen)")
    (auto simp: maxPacketSize_def frameSize_def split: if_splits)

declare writePacket_loop.simps [simp del]

text \<open>
  The stale-connection check probes \<open>mc.rawConn\<close> when there is one, \<open>mc.netConn\<close>
  otherwise; \<open>mc.reset\<close> is cleared before the probe.
\<close>

definition staleCheck :: "mysqlConn \<Rightarrow> mysqlConn + mysqlConn" where
  "staleCheck mc =
     (if reset mc then
        (let mc1 = mc\<lparr>reset := False\<rparr>;
             conn = (case rawConn mc1 of Some c \<Rightarrow> c | None \<Rightarrow> netConn mc1);
             err1 = (if cfgReadTimeout mc1 \<noteq> 0
                     then map_option NetError (readDeadlineErr conn) else None);
             err2 = (if err1 = None \<and> cfgCheckConnLiveness mc1
                     then map_option NetError (connCheckErr conn) else err1)
         in case err2 of
              Some e \<Rightarrow> Inl (closeConn (errLogPrint (LogBadIdle e) mc1))
            | None \<Rightarrow> Inr mc1)
      else Inr mc)"

definition writePacket :: "zlibWriter \<Rightarrow> packetTransceiver \<Rightarrow> mysqlConn \<Rightarrow> byte list \<Rightarrow> bool
    \<Rightarrow> (error option \<times> packetTransceiver \<times> mysqlConn) option" where
  "writePacket zw pb mc data compr =
     (let pktLen = int (length data) - 4
      in if pktLen > maxAllowedPacket mc then Some (Some ErrPktTooLarge, pb, mc)
         else
           (case staleCheck mc of
              Inl mc' \<Rightarrow> Some (Some ErrBadConn, pb, mc')
            | Inr mc' \<Rightarrow> writePacket_loop zw pb mc' data pktLen compr))"

section \<open>States for the examples\<close>

text \<open>
  A connection on which nothing has happened yet, with the driver's default
  \<open>maxAllowedPacket\<close> of 4 MiB, and a transceiver whose fields are Go's zero values.
\<close>

definition idleConn :: netConn where
  "idleConn = \<lparr>responses = [], sent = [], writeDeadlineErr = None, readDeadlineErr = None,
     connCheckErr = None\<rparr>"

definition newConn :: mysqlConn where
  "newConn = \<lparr>netConn = idleConn, rawConn = None, buf = [], bufErr = EOF, sequence = 0,
     compressionSequence = 0, maxAllowedPacket = 4194304, writeTimeout = 0,
     cfgReadTimeout = 0, cfgCheckConnLiveness = True, reset = False, canceled = None,
     isClosed = False, errLog = []\<rparr>"

definition newTransceiver :: packetTransceiver where
  "newTransceiver = \<lparr>compressor = \<lparr>cbuffer = [], compressorSet = False\<rparr>,
     decompressor = \<lparr>buffer = [], bufferCap = 0, bufferNil = True, index = 0,
       decompressorSet = False\<rparr>\<rparr>"

section \<open>Verified properties\<close>

text \<open>
  C8. A packet whose payload length exceeds \<open>maxAllowedPacket\<close> is rejected with
  \<open>ErrPktTooLarge\<close> before anything else happens: the call returns, and the transceiver
  and the whole connection state (bytes sent, pending responses of the transport, both
  sequence counters, the stale flag, the closed flag, the log) are exactly what they
  were.
\<close>

theorem writePacket_oversized:
  assumes "int (length data) - 4 > maxAllowedPacket mc"
  shows "writePacket zw pb mc data compr = Some (Some ErrPktTooLarge, pb, mc)"
  using assms by (simp add: writePacket_def)

theorem writePacket_oversized_witness:
  "int (length (replicate 12 (0::byte))) - 4 > maxAllowedPacket (newConn\<lparr>maxAllowedPacket := 7, reset := True\<rparr>)
   \<and> writePacket (\<lambda>x. ([], None)) newTransceiver (newConn\<lparr>maxAllowedPacket := 7, reset := True\<rparr>)
        (replicate 12 0) True
      = Some (Some ErrPktTooLarge, newTransceiver, newConn\<lparr>maxAllowedPacket := 7, reset := True\<rparr>)"
proof -
  have h: "int (length (replicate 12 (0::byte))) - 4 > maxAllowedPacket (newConn\<lparr>maxAllowedPacket := 7, reset := True\<rparr>)"
    by simp
  show ?thesis
    using h writePacket_oversized [OF h] by simp
qed

text \<open>
  C6. \<open>grow\<close> on a decompressor whose cursor is within its buffer. Whether it leaves
  the buffer alone, compacts it or allocates depends only on the capacity, the length,
  the cursor and the requested length: with room at the tail nothing changes; otherwise
  the pending bytes are moved to offset 0 of the same region (same capacity) exactly
  when pending plus incoming fit the capacity, and else a region of capacity pending
  plus incoming receives them. The pending bytes are the same bytes in the same order,
  the cursor is 0 after a move, and afterwards the incoming bytes fit.
\<close>

theorem grow_policy:
  assumes "index pd \<le> length (buffer pd)"
  shows "\<exists>pd'. grow pd n = Inr pd'
     \<and> drop (index pd') (buffer pd') = drop (index pd) (buffer pd)
     \<and> length (buffer pd') + n \<le> bufferCap pd'
     \<and> (if length (buffer pd) + n \<le> bufferCap pd then pd' = pd
        else if length (buffer pd) - index pd + n \<le> bufferCap pd then
          pd' = pd\<lparr>buffer := drop (index pd) (buffer pd), index := 0\<rparr>
        else
          pd' = pd\<lparr>buffer := drop (index pd) (buffer pd), index := 0, bufferNil := False,
                   bufferCap := length (buffer pd) - index pd + n\<rparr>)"
  using assms by (auto simp: grow_def Let_def)

theorem grow_policy_witness:
  "grow \<lparr>buffer = [1, 2, 3, 4], bufferCap = 6, bufferNil = False, index = 3,
          decompressorSet = False\<rparr> 4
     = Inr \<lparr>buffer = [4], bufferCap = 6, bufferNil = False, index = 0, decompressorSet = False\<rparr>
   \<and> grow \<lparr>buffer = [1, 2, 3, 4], bufferCap = 6, bufferNil = False, index = 3,
          decompressorSet = False\<rparr> 6
     = Inr \<lparr>buffer = [4], bufferCap = 7, bufferNil = False, index = 0, decompressorSet = False\<rparr>"
  using grow_policy [of "\<lparr>buffer = [1, 2, 3, 4], bufferCap = 6, bufferNil = False, index = 3,
          decompressorSet = False\<rparr>" 4]
    grow_policy [of "\<lparr>buffer = [1, 2, 3, 4], bufferCap = 6, bufferNil = False, index = 3,
          decompressorSet = False\<rparr>" 6]
  by auto


subsection \<open>What a write returns\<close>

lemma connWrite_le: "connWrite r p = (k, e) \<Longrightarrow> k \<le> length p"
  by (cases r) auto

lemma connWrite_err: "connWrite r p = (k, Some e) \<Longrightarrow> \<exists>c. e = NetError c"
  by (cases r) auto

lemma sendLoop_Nil:
  "sendLoop [] out data i =
     (if i < length data then None else Some ((length data, None), [], out))"
  by (subst sendLoop.simps) simp

lemma sendLoop_Cons:
  "sendLoop (r # rs) out data i =
     (if i < length data then
        (let (n, err) = connWrite r (drop i data)
         in if err \<noteq> None then Some ((i + n, err), rs, out @ take n (drop i data))
            else sendLoop rs (out @ take n (drop i data)) data (i + n))
      else Some ((length data, None), r # rs, out))"
  by (subst sendLoop.simps) (simp add: Let_def)

lemma sendLoop_done:
  "\<not> i < length data \<Longrightarrow> sendLoop rs out data i = Some ((length data, None), rs, out)"
  by (subst sendLoop.simps) simp

lemma sendLoop_nil:
  "sendLoop rs out data i = Some ((n, None), rs', out') \<Longrightarrow> i \<le> length data
     \<Longrightarrow> n = length data \<and> out' = out @ drop i data"
proof (induction rs out data i rule: sendLoop.induct)
  case (1 rs out data i)
  show ?case
  proof (cases "i < length data")
    case False
    with "1.prems" show ?thesis
      by (simp add: sendLoop_done)
  next
    case True
    with "1.prems" obtain r rs1 where rs: "rs = r # rs1"
      by (cases rs) (simp_all add: sendLoop_Nil)
    obtain k e where cw: "connWrite r (drop i data) = (k, e)"
      by (cases "connWrite r (drop i data)") auto
    from connWrite_le [OF cw] have kle: "i + k \<le> length data"
      using True by simp
    from "1.prems" True rs cw have e: "e = None"
      by (auto simp: sendLoop_Cons sendLoop_Nil split: if_splits)
    with "1.prems" True rs cw
    have r: "sendLoop rs1 (out @ take k (drop i data)) data (i + k) = Some ((n, None), rs', out')"
      by (simp add: sendLoop_Cons sendLoop_Nil)
    have "n = length data \<and> out' = (out @ take k (drop i data)) @ drop (i + k) data"
      using "1.IH" [OF True rs cw [symmetric] refl refl refl _ r kle] e by simp
    moreover have "take k (drop i data) @ drop (i + k) data = drop i data"
      by (metis add.commute append_take_drop_id drop_drop)
    ultimately show ?thesis by simp
  qed
qed

lemma sendLoop_err:
  "sendLoop rs out data i = Some ((n, Some e), rs', out') \<Longrightarrow> \<exists>c. e = NetError c"
proof (induction rs out data i rule: sendLoop.induct)
  case (1 rs out data i)
  show ?case
  proof (cases "i < length data")
    case False
    with "1.prems" show ?thesis
      by (simp add: sendLoop_done)
  next
    case True
    with "1.prems" obtain r rs1 where rs: "rs = r # rs1"
      by (cases rs) (simp_all add: sendLoop_Nil)
    obtain k e' where cw: "connWrite r (drop i data) = (k, e')"
      by (cases "connWrite r (drop i data)") auto
    show ?thesis
    proof (cases e')
      case None
      with "1.prems" True rs cw
      have r: "sendLoop rs1 (out @ take k (drop i data)) data (i + k) = Some ((n, Some e), rs', out')"
        by (simp add: sendLoop_Cons sendLoop_Nil)
      show ?thesis
        using "1.IH" [OF True rs cw [symmetric] refl refl refl _ r] None by simp
    next
      case (Some a)
      with "1.prems" True rs cw have "e = a"
        by (simp add: sendLoop_Cons sendLoop_Nil)
      with Some cw connWrite_err show ?thesis by blast
    qed
  qed
qed

lemma sendToNetwork_nil:
  "sendToNetwork conn data = Some ((n, None), conn')
     \<Longrightarrow> n = length data \<and> sent conn' = sent conn @ data"
  by (auto simp: sendToNetwork_def split: option.splits dest!: sendLoop_nil)

lemma sendToNetwork_err:
  "sendToNetwork conn data = Some ((n, Some e), conn') \<Longrightarrow> \<exists>c. e = NetError c"
  by (auto simp: sendToNetwork_def split: option.splits dest!: sendLoop_err)


lemma writeToBuffer_literal:
  "writeToBuffer zw pc data seq False =
     (Inr (min (length data) maxPacketSize),
      pc\<lparr>cbuffer := setUncompressedLength
                         (setSequence (setPayload zeroHeader (min (length data) maxPacketSize)) seq) 0
                       @ take (min (length data) maxPacketSize) data\<rparr>)"
  by (subst writeToBuffer.simps) (auto simp: Let_def min_def)

lemma writeToBuffer_Inr: "\<exists>n pc'. writeToBuffer zw pc data seq c = (Inr n, pc')"
proof (cases c)
  case False
  then show ?thesis by (simp add: writeToBuffer_literal)
next
  case True
  then show ?thesis
    by (subst writeToBuffer.simps)
      (auto simp: Let_def writeToBuffer_literal split: prod.splits)
qed

lemma setWriteDeadline_err: "setWriteDeadline mc = Some e \<Longrightarrow> \<exists>c. e = NetError c"
  by (auto simp: setWriteDeadline_def split: if_splits)

lemma pc_writePacket_loop_result:
  "pc_writePacket_loop zw pc mc packet i = Some ((m, e), pc', mc')
     \<Longrightarrow> (e = None \<longrightarrow> m = length packet) \<and> (\<forall>x. e = Some x \<longrightarrow> (\<exists>c. x = NetError c))
        \<and> errLog mc' = errLog mc \<and> isClosed mc' = isClosed mc \<and> sequence mc' = sequence mc
        \<and> canceled mc' = canceled mc"
proof (induction zw pc mc packet i rule: pc_writePacket_loop.induct)
  case (1 zw pc mc packet i)
  show ?case
  proof (cases "i < length packet")
    case False
    with "1.prems" show ?thesis
      by (simp add: pc_writePacket_loop.simps [of zw pc mc packet i])
  next
    case True
    obtain k pc1 where w: "writeToBuffer zw pc (drop i packet) (compressionSequence mc)
        (length packet - i < minCompressSize) = (Inr k, pc1)"
      using writeToBuffer_Inr by blast
    show ?thesis
    proof (cases "setWriteDeadline mc")
      case (Some a)
      with "1.prems" True w have "e = Some a \<and> mc' = mc"
        by (simp add: pc_writePacket_loop.simps [of zw pc mc packet i])
      with setWriteDeadline_err [OF Some] show ?thesis
        by auto
    next
      case None
      with "1.prems" True w obtain n err conn' where
        s: "sendToNetwork (netConn mc) (cbuffer pc1) = Some ((n, err), conn')"
        by (auto simp: pc_writePacket_loop.simps [of zw pc mc packet i] split: option.splits)
      show ?thesis
      proof (cases err)
        case (Some a)
        with "1.prems" True w None s have "e = Some a \<and> mc' = mc\<lparr>netConn := conn'\<rparr>"
          by (simp add: pc_writePacket_loop.simps [of zw pc mc packet i])
        with Some s sendToNetwork_err [of "netConn mc" "cbuffer pc1" n a conn']
        show ?thesis
          by auto
      next
        case None2: None
        with s sendToNetwork_nil have n: "n = length (cbuffer pc1)"
          by blast
        with "1.prems" True w None s None2
        have r: "pc_writePacket_loop zw pc1
            ((mc\<lparr>netConn := conn'\<rparr>)\<lparr>compressionSequence :=
               compressionSequence (mc\<lparr>netConn := conn'\<rparr>) + 1\<rparr>)
            packet (i + k) = Some ((m, e), pc', mc')"
          by (simp add: pc_writePacket_loop.simps [of zw pc mc packet i])
        from "1.IH" [OF True refl w [symmetric] refl None s refl refl refl _ _ r]
        show ?thesis using None2 n by simp
      qed
    qed
  qed
qed


lemma pc_writePacket_result:
  "pc_writePacket zw pc mc packet = Some ((m, e), pc', mc')
     \<Longrightarrow> (e = None \<longrightarrow> m = length packet) \<and> (\<forall>x. e = Some x \<longrightarrow> (\<exists>c. x = NetError c))
        \<and> errLog mc' = errLog mc \<and> isClosed mc' = isClosed mc \<and> sequence mc' = sequence mc
        \<and> canceled mc' = canceled mc"
  using pc_writePacket_loop_result [of zw pc mc packet 0 m e pc' mc']
  by (auto simp: pc_writePacket_def split: if_splits)

lemma sendFrame_result:
  assumes "sendFrame zw pb mc frame compr = Some (Inr ((n, err), pb1, mc1))"
  shows "(err = None \<longrightarrow> n = length frame) \<and> (\<forall>x. err = Some x \<longrightarrow> (\<exists>c. x = NetError c))
        \<and> errLog mc1 = errLog mc \<and> isClosed mc1 = isClosed mc \<and> sequence mc1 = sequence mc
        \<and> canceled mc1 = canceled mc"
proof (cases compr)
  case True
  with assms obtain pc' where "pc_writePacket zw (compressor pb) mc frame = Some ((n, err), pc', mc1)"
    by (auto simp: sendFrame_def split: option.splits)
  from pc_writePacket_result [OF this] show ?thesis .
next
  case False
  with assms obtain conn' where s: "sendToNetwork (netConn mc) frame = Some ((n, err), conn')"
    and m: "mc1 = mc\<lparr>netConn := conn'\<rparr>"
    by (auto simp: sendFrame_def split: option.splits)
  show ?thesis
  proof (cases err)
    case None
    with s sendToNetwork_nil [of "netConn mc" frame n conn'] m show ?thesis by simp
  next
    case (Some a)
    with s sendToNetwork_err [of "netConn mc" frame n a conn'] m show ?thesis by simp
  qed
qed

lemma sendFrame_Inl: "sendFrame zw pb mc frame compr = Some (Inl e) \<Longrightarrow> \<exists>c. e = NetError c"
  by (auto simp: sendFrame_def split: if_splits option.splits dest: setWriteDeadline_err)

lemma writePacket_loop_log:
  "writePacket_loop zw pb mc data pktLen compr = Some (r, pb', mc')
     \<Longrightarrow> LogError ErrMalformPkt \<in> set (errLog mc')
     \<Longrightarrow> LogError ErrMalformPkt \<in> set (errLog mc)"
proof (induction zw pb mc data pktLen compr rule: writePacket_loop.induct)
  case (1 zw pb mc data pktLen compr)
  note eq = writePacket_loop.simps [of zw pb mc data pktLen compr]
  define size where "size = frameSize pktLen"
  define data' where "data' = putHeader data pktLen (sequence mc)"
  show ?case
  proof (cases "length data < 4 \<or> 4 + size < 0 \<or> 4 + size > int (length data')")
    case True
    with "1.prems" show ?thesis
      by (auto simp: eq Let_def size_def data'_def split: if_splits)
  next
    case ok: False
    show ?thesis
    proof (cases "sendFrame zw pb mc (take (nat (4 + size)) data') compr")
      case None
      with "1.prems" ok show ?thesis
        by (simp add: eq Let_def size_def data'_def)
    next
      case (Some res)
      show ?thesis
      proof (cases res)
        case (Inl e)
        with "1.prems" ok Some show ?thesis
          by (auto simp: eq Let_def size_def data'_def)
      next
        case (Inr x)
        then obtain n err pb1 mc1 where x: "res = Inr ((n, err), pb1, mc1)"
          by (cases x) auto
        note sf = Some [unfolded x]
        note facts = sendFrame_result [OF sf]
        show ?thesis
        proof (cases "err = None \<and> int n = 4 + size")
          case True
          show ?thesis
          proof (cases "size \<noteq> int maxPacketSize")
            case True
            with "1.prems" ok sf \<open>err = None \<and> int n = 4 + size\<close> facts show ?thesis
              by (auto simp: eq Let_def size_def data'_def)
          next
            case False
            with "1.prems" ok sf True
            have rec: "writePacket_loop zw pb1 (mc1\<lparr>sequence := sequence mc1 + 1\<rparr>)
                (drop (nat size) data') (pktLen - size) compr = Some (r, pb', mc')"
              by (auto simp: eq Let_def size_def data'_def)
            have "LogError ErrMalformPkt \<in> set (errLog (mc1\<lparr>sequence := sequence mc1 + 1\<rparr>))"
              apply (rule "1.IH" [OF _ size_def data'_def _ sf refl refl refl refl _ refl _ rec "1.prems"(2)])
              using ok True False by auto
            with facts show ?thesis by simp
          qed
        next
          case False
          with facts have "\<exists>a c. err = Some a \<and> a = NetError c"
            using ok by (cases err) auto
          with "1.prems" ok sf False facts show ?thesis
            by (auto simp: eq Let_def size_def data'_def writeFailed_def errLogPrint_def
                closeConn_def split: option.splits if_splits)
        qed
      qed
    qed
  qed
qed


fun progresses :: "wresp \<Rightarrow> bool" where
  "progresses WriteAll = True"
| "progresses (WriteSome n e) = (0 < n \<or> e \<noteq> None)"

lemma sendLoop_returns:
  "list_all progresses rs \<Longrightarrow> length data - i \<le> length rs \<Longrightarrow> sendLoop rs out data i \<noteq> None"
proof (induction rs arbitrary: out i)
  case Nil
  then show ?case by (simp add: sendLoop_Nil)
next
  case (Cons r rs)
  show ?case
  proof (cases "i < length data")
    case False
    then show ?thesis by (simp add: sendLoop_done)
  next
    case True
    obtain k e where cw: "connWrite r (drop i data) = (k, e)"
      by (cases "connWrite r (drop i data)") auto
    show ?thesis
    proof (cases e)
      case (Some a)
      with True cw show ?thesis by (simp add: sendLoop_Cons)
    next
      case None
      with cw Cons.prems(1) True have "0 < k"
        by (cases r) auto
      with Cons.prems(2) have "length data - (i + k) \<le> length rs"
        by simp
      with Cons.IH [of "i + k" "out @ take k (drop i data)"] Cons.prems(1)
      have "sendLoop rs (out @ take k (drop i data)) data (i + k) \<noteq> None"
        by simp
      with True cw None show ?thesis by (simp add: sendLoop_Cons)
    qed
  qed
qed

text \<open>
  C10. \<open>sendToNetwork\<close> returns \<open>len(data)\<close> whenever it returns a \<open>nil\<close> error, and
  then exactly the bytes of \<open>data\<close> have gone to the transport; a count below
  \<open>len(data)\<close> comes with an error. It does return when every response of the transport
  accepts at least one byte or fails (a partial write is followed by another write of the
  rest) and there are enough responses. For the callers: \<open>writePacket\<close> of the compressor
  never returns \<open>ErrInvalidConn\<close>, which only its short-write check produces, and returns
  \<open>len(packet)\<close> with a \<open>nil\<close> error; the frame hand-over of the transceiver returns
  \<open>4+size\<close> with a \<open>nil\<close> error; and \<open>writePacket\<close> of the transceiver never logs
  \<open>ErrMalformPkt\<close>, which only its branch for a short write without error does.
\<close>

theorem sendToNetwork_whole_or_error:
  "(\<forall>n err conn'. sendToNetwork conn data = Some ((n, err), conn') \<longrightarrow>
      (err = None \<longrightarrow> n = length data \<and> sent conn' = sent conn @ data)
      \<and> (n < length data \<longrightarrow> err \<noteq> None))
   \<and> (list_all progresses (responses conn) \<and> length data \<le> length (responses conn)
        \<longrightarrow> sendToNetwork conn data \<noteq> None)
   \<and> (\<forall>m e pc' mc'. pc_writePacket zw pc mc packet = Some ((m, e), pc', mc') \<longrightarrow>
        e \<noteq> Some ErrInvalidConn \<and> (e = None \<longrightarrow> m = length packet))
   \<and> (\<forall>n pb1 mc1. sendFrame zw pb mc frame compr = Some (Inr ((n, None), pb1, mc1)) \<longrightarrow>
        n = length frame)
   \<and> (\<forall>r pb' mc'. writePacket zw pb mc bytes compr = Some (r, pb', mc') \<longrightarrow>
        LogError ErrMalformPkt \<in> set (errLog mc') \<longrightarrow> LogError ErrMalformPkt \<in> set (errLog mc))"
proof (intro conjI allI impI)
  fix n err conn'
  assume s: "sendToNetwork conn data = Some ((n, err), conn')"
  {
    assume "err = None"
    with s sendToNetwork_nil [of conn data n conn']
    show "n = length data" and "sent conn' = sent conn @ data" by simp_all
  }
  {
    assume "n < length data"
    with s sendToNetwork_nil [of conn data n conn'] show "err \<noteq> None" by auto
  }
next
  assume "list_all progresses (responses conn) \<and> length data \<le> length (responses conn)"
  then have "sendLoop (responses conn) (sent conn) data 0 \<noteq> None"
    by (intro sendLoop_returns) simp_all
  then show "sendToNetwork conn data \<noteq> None"
    by (auto simp: sendToNetwork_def split: option.splits)
next
  fix m e pc' mc'
  assume p: "pc_writePacket zw pc mc packet = Some ((m, e), pc', mc')"
  from pc_writePacket_result [OF p] show "e \<noteq> Some ErrInvalidConn" by auto
  {
    assume "e = None"
    with pc_writePacket_result [OF p] show "m = length packet" by simp
  }
next
  fix n pb1 mc1
  assume "sendFrame zw pb mc frame compr = Some (Inr ((n, None), pb1, mc1))"
  from sendFrame_result [OF this] show "n = length frame" by simp
next
  fix r pb' mc'
  assume w: "writePacket zw pb mc bytes compr = Some (r, pb', mc')"
    and l: "LogError ErrMalformPkt \<in> set (errLog mc')"
  show "LogError ErrMalformPkt \<in> set (errLog mc)"
  proof (cases "int (length bytes) - 4 > maxAllowedPacket mc")
    case True
    with w l show ?thesis by (simp add: writePacket_def)
  next
    case False
    show ?thesis
    proof (cases "staleCheck mc")
      case (Inl m)
      with w l False show ?thesis
        by (auto simp: writePacket_def staleCheck_def Let_def errLogPrint_def closeConn_def
            split: if_splits option.splits)
    next
      case (Inr m)
      with w False have "writePacket_loop zw pb m bytes (int (length bytes) - 4) compr
          = Some (r, pb', mc')"
        by (simp add: writePacket_def)
      from writePacket_loop_log [OF this l] have "LogError ErrMalformPkt \<in> set (errLog m)" .
      with Inr show ?thesis
        by (auto simp: staleCheck_def Let_def split: if_splits option.splits)
    qed
  qed
qed


theorem sendToNetwork_whole_or_error_witness:
  "sendToNetwork (idleConn\<lparr>responses := [WriteSome 1 None, WriteSome 5 None]\<rparr>) [1, 2, 3]
     = Some ((3, None), idleConn\<lparr>responses := [], sent := [1, 2, 3]\<rparr>)
   \<and> 3 = length [1, 2, 3 :: byte]
   \<and> sent (idleConn\<lparr>responses := [], sent := [1, 2, 3]\<rparr>)
       = sent (idleConn\<lparr>responses := [WriteSome 1 None, WriteSome 5 None]\<rparr>) @ [1, 2, 3]
   \<and> list_all progresses [WriteSome 1 None, WriteSome 5 None]
   \<and> pc_writePacket (\<lambda>x. ([], None)) (compressor newTransceiver)
        (newConn\<lparr>netConn := idleConn\<lparr>responses := [WriteAll]\<rparr>\<rparr>) [1, 2, 3, 4, 5]
       \<noteq> None"
proof -
  let ?c = "idleConn\<lparr>responses := [WriteSome 1 None, WriteSome 5 None]\<rparr>"
  let ?c' = "idleConn\<lparr>responses := [], sent := [1, 2, 3]\<rparr>"
  have run: "sendToNetwork ?c [1, 2, 3] = Some ((3, None), ?c')"
    by (simp add: sendToNetwork_def sendLoop_Cons sendLoop_Nil sendLoop_done idleConn_def)
  have pc: "pc_writePacket (\<lambda>x. ([], None)) (compressor newTransceiver)
        (newConn\<lparr>netConn := idleConn\<lparr>responses := [WriteAll]\<rparr>\<rparr>) [1, 2, 3, 4, 5] \<noteq> None"
    by (simp add: pc_writePacket_def pc_writePacket_loop.simps writeToBuffer.simps
        compress_def Let_def minCompressSize_def maxPacketSize_def setWriteDeadline_def
        newConn_def idleConn_def newTransceiver_def sendToNetwork_def sendLoop_Cons
        sendLoop_Nil sendLoop_done go_copy_def zeroHeader_def setPayload_def setSequence_def
        setUncompressedLength_def)
  from sendToNetwork_whole_or_error [of ?c "[1, 2, 3]" "\<lambda>x. ([], None)"
      "compressor newTransceiver" "newConn\<lparr>netConn := idleConn\<lparr>responses := [WriteAll]\<rparr>\<rparr>"
      "[1, 2, 3, 4, 5]" newTransceiver "[]" False "[]"] run
  have "3 = length [1, 2, 3 :: byte] \<and> sent ?c' = sent ?c @ [1, 2, 3]"
    by blast
  with run pc show ?thesis by simp
qed


subsection \<open>Zero-length packets and frames\<close>

lemma list4: "length xs = 4 \<Longrightarrow> \<exists>a b c d. xs = [a, b, c, d]"
  by (auto simp: length_Suc_conv numeral_eq_Suc)

lemma putHeader_zero: "length data = 4 \<Longrightarrow> putHeader data 0 seq = [0, 0, 0, seq]"
  by (auto dest!: list4 simp: putHeader_def maxPacketSize_def)

lemma staleCheck_fresh: "\<not> reset mc \<Longrightarrow> staleCheck mc = Inr mc"
  by (simp add: staleCheck_def)

lemma sendToNetwork_WriteAll:
  "responses conn = WriteAll # rs \<Longrightarrow> data \<noteq> [] \<Longrightarrow>
   sendToNetwork conn data
     = Some ((length data, None), conn\<lparr>responses := rs, sent := sent conn @ data\<rparr>)"
  by (auto simp: sendToNetwork_def sendLoop_Cons sendLoop_done)

lemma writePacket_zero:
  assumes "length data = 4" "0 \<le> maxAllowedPacket mc" "staleCheck mc = Inr mc1"
  shows "writePacket zw pb mc data compr =
        (case sendFrame zw pb mc1 [0, 0, 0, sequence mc1] compr of
           None \<Rightarrow> None
         | Some (Inl err) \<Rightarrow> Some (Some err, pb, mc1)
         | Some (Inr ((n, err), pb2, mc2)) \<Rightarrow>
             if err = None then Some (None, pb2, mc2\<lparr>sequence := sequence mc2 + 1\<rparr>)
             else (case writeFailed mc2 n err 0 4 of (e, mc3) \<Rightarrow> Some (Some e, pb2, mc3)))"
proof -
  have fs: "frameSize 0 = 0"
    by (simp add: frameSize_def maxPacketSize_def)
  have w: "writePacket zw pb mc data compr = writePacket_loop zw pb mc1 data 0 compr"
    using assms by (simp add: writePacket_def)
  show ?thesis
  proof (cases "sendFrame zw pb mc1 [0, 0, 0, sequence mc1] compr")
    case None
    with assms show ?thesis
      by (simp add: w writePacket_loop.simps [of zw pb mc1 data] fs putHeader_zero)
  next
    case (Some res)
    show ?thesis
    proof (cases res)
      case (Inl e)
      with Some assms show ?thesis
        by (simp add: w writePacket_loop.simps [of zw pb mc1 data] fs putHeader_zero)
    next
      case (Inr x)
      then obtain n err pb2 mc2 where x: "res = Inr ((n, err), pb2, mc2)"
        by (cases x) auto
      have four: "Suc (Suc (Suc (Suc 0))) = 4"
        by simp
      from sendFrame_result [OF Some [unfolded x]] have "err = None \<longrightarrow> n = 4"
        by simp
      with Some x assms show ?thesis
        by (auto simp: w writePacket_loop.simps [of zw pb mc1 data] fs putHeader_zero
            maxPacketSize_def four)
    qed
  qed
qed

lemma readPacket_loop_zero:
  assumes "readBytes zr pb mc compr 4 = (Inr hdr, pb1, mc1)"
    and "le24 (hdr ! 0) (hdr ! 1) (hdr ! 2) = 0" and "hdr ! 3 = sequence mc1"
  shows "readPacket_loop zr pb mc compr None =
        (Inl ErrInvalidConn, pb1,
         closeConn (errLogPrint (LogError ErrMalformPkt) (mc1\<lparr>sequence := sequence mc1 + 1\<rparr>)))"
    and "readPacket_loop zr pb mc compr (Some prev) =
        (Inr prev, pb1, mc1\<lparr>sequence := sequence mc1 + 1\<rparr>)"
  using assms by (simp_all add: readPacket_loop.simps [of zr pb mc compr])

text \<open>
  C5, as the code has it. A logical packet with an empty payload is a buffer of just
  the four header bytes. When it is within \<open>maxAllowedPacket\<close> and the stale-connection
  check, if one is due, passes and leaves the connection \<open>mc1\<close>, it is written as
  exactly one frame, \<open>0, 0, 0, sequence\<close>: \<open>writePacket\<close> is one hand-over of that frame
  and no second one, and on a transport that accepts it these four bytes are all that is
  sent. When \<open>readPacket\<close> reads a header with the expected sequence and length 0, then
  with no fragment accumulated it logs \<open>ErrMalformPkt\<close>, closes the connection and
  returns \<open>ErrInvalidConn\<close>; with a fragment accumulated it returns the accumulated
  bytes.
\<close>

theorem zero_length_packet:
  "(length data = 4 \<and> 0 \<le> maxAllowedPacket mc \<and> staleCheck mc = Inr mc1 \<longrightarrow>
      writePacket zw pb mc data compr =
        (case sendFrame zw pb mc1 [0, 0, 0, sequence mc1] compr of
           None \<Rightarrow> None
         | Some (Inl err) \<Rightarrow> Some (Some err, pb, mc1)
         | Some (Inr ((n, err), pb2, mc2)) \<Rightarrow>
             if err = None then Some (None, pb2, mc2\<lparr>sequence := sequence mc2 + 1\<rparr>)
             else (case writeFailed mc2 n err 0 4 of (e, mc3) \<Rightarrow> Some (Some e, pb2, mc3))))
   \<and> (length data = 4 \<and> 0 \<le> maxAllowedPacket mc \<and> staleCheck mc = Inr mc1
        \<and> setWriteDeadline mc1 = None \<and> responses (netConn mc1) = WriteAll # rs \<longrightarrow>
      writePacket zw pb mc data False =
        Some (None, pb,
          mc1\<lparr>netConn := (netConn mc1)\<lparr>responses := rs,
                    sent := sent (netConn mc1) @ [0, 0, 0, sequence mc1]\<rparr>,
              sequence := sequence mc1 + 1\<rparr>))
   \<and> (readBytes zr pb' mc' compr 4 = (Inr hdr, pb1, c1)
        \<and> le24 (hdr ! 0) (hdr ! 1) (hdr ! 2) = 0 \<and> hdr ! 3 = sequence c1 \<longrightarrow>
      readPacket_loop zr pb' mc' compr None =
        (Inl ErrInvalidConn, pb1,
         closeConn (errLogPrint (LogError ErrMalformPkt) (c1\<lparr>sequence := sequence c1 + 1\<rparr>)))
      \<and> readPacket_loop zr pb' mc' compr (Some prev) =
        (Inr prev, pb1, c1\<lparr>sequence := sequence c1 + 1\<rparr>))"
proof (intro conjI impI)
  assume "length data = 4 \<and> 0 \<le> maxAllowedPacket mc \<and> staleCheck mc = Inr mc1"
  then show "writePacket zw pb mc data compr =
        (case sendFrame zw pb mc1 [0, 0, 0, sequence mc1] compr of
           None \<Rightarrow> None
         | Some (Inl err) \<Rightarrow> Some (Some err, pb, mc1)
         | Some (Inr ((n, err), pb2, mc2)) \<Rightarrow>
             if err = None then Some (None, pb2, mc2\<lparr>sequence := sequence mc2 + 1\<rparr>)
             else (case writeFailed mc2 n err 0 4 of (e, mc3) \<Rightarrow> Some (Some e, pb2, mc3)))"
    by (simp add: writePacket_zero)
next
  assume a: "length data = 4 \<and> 0 \<le> maxAllowedPacket mc \<and> staleCheck mc = Inr mc1
        \<and> setWriteDeadline mc1 = None \<and> responses (netConn mc1) = WriteAll # rs"
  then have "sendFrame zw pb mc1 [0, 0, 0, sequence mc1] False =
      Some (Inr ((4, None), pb, mc1\<lparr>netConn := (netConn mc1)\<lparr>responses := rs,
                   sent := sent (netConn mc1) @ [0, 0, 0, sequence mc1]\<rparr>\<rparr>))"
    by (simp add: sendFrame_def sendToNetwork_WriteAll)
  with a show "writePacket zw pb mc data False =
        Some (None, pb,
          mc1\<lparr>netConn := (netConn mc1)\<lparr>responses := rs,
                    sent := sent (netConn mc1) @ [0, 0, 0, sequence mc1]\<rparr>,
              sequence := sequence mc1 + 1\<rparr>)"
    by (simp add: writePacket_zero [of data mc mc1])
next
  assume a: "readBytes zr pb' mc' compr 4 = (Inr hdr, pb1, c1)
        \<and> le24 (hdr ! 0) (hdr ! 1) (hdr ! 2) = 0 \<and> hdr ! 3 = sequence c1"
  then show "readPacket_loop zr pb' mc' compr None =
        (Inl ErrInvalidConn, pb1,
         closeConn (errLogPrint (LogError ErrMalformPkt) (c1\<lparr>sequence := sequence c1 + 1\<rparr>)))"
    by (simp add: readPacket_loop_zero)
  from a show "readPacket_loop zr pb' mc' compr (Some prev) =
        (Inr prev, pb1, c1\<lparr>sequence := sequence c1 + 1\<rparr>)"
    by (simp add: readPacket_loop_zero)
qed

text \<open>
  The example writes the empty packet on a connection whose stale flag is set and whose
  liveness probe passes, and reads an isolated zero-length frame.
\<close>

theorem zero_length_packet_witness:
  "writePacket (\<lambda>x. ([], None)) newTransceiver
      (newConn\<lparr>netConn := idleConn\<lparr>responses := [WriteAll]\<rparr>, reset := True\<rparr>)
      [9, 9, 9, 9] False
     = Some (None, newTransceiver,
         newConn\<lparr>netConn := idleConn\<lparr>responses := [], sent := [0, 0, 0, 0]\<rparr>, sequence := 1\<rparr>)
   \<and> readPacket_loop (\<lambda>x. ([], None)) newTransceiver (newConn\<lparr>buf := [0, 0, 0, 0]\<rparr>) False None
     = (Inl ErrInvalidConn, newTransceiver,
        newConn\<lparr>buf := [], sequence := 1, isClosed := True,
                errLog := [LogError ErrMalformPkt]\<rparr>)
   \<and> readPacket_loop (\<lambda>x. ([], None)) newTransceiver (newConn\<lparr>buf := [0, 0, 0, 0]\<rparr>) False
        (Some [7])
     = (Inr [7], newTransceiver, newConn\<lparr>buf := [], sequence := 1\<rparr>)"
proof -
  let ?mc = "newConn\<lparr>netConn := idleConn\<lparr>responses := [WriteAll]\<rparr>, reset := True\<rparr>"
  let ?mc1 = "newConn\<lparr>netConn := idleConn\<lparr>responses := [WriteAll]\<rparr>\<rparr>"
  have sc: "staleCheck ?mc = Inr ?mc1"
    by (simp add: staleCheck_def newConn_def idleConn_def)
  have rd: "readBytes (\<lambda>x. ([], None)) newTransceiver (newConn\<lparr>buf := [0, 0, 0, 0]\<rparr>) False 4
      = (Inr [0, 0, 0, 0], newTransceiver, newConn\<lparr>buf := []\<rparr>)"
    by (simp add: readBytes_def buf_readNext_def newConn_def)
  have z: "le24 0 0 0 = 0"
    by (simp add: le24_eq)
  show ?thesis
    using zero_length_packet [where data = "[9, 9, 9, 9]" and mc = "?mc" and ?mc1.0 = "?mc1"
        and zw = "\<lambda>x. ([], None)" and pb = newTransceiver and compr = False and rs = "[]"
        and zr = "\<lambda>x. ([], None)" and pb' = newTransceiver
        and mc' = "newConn\<lparr>buf := [0, 0, 0, 0]\<rparr>" and hdr = "[0, 0, 0, 0]"
        and ?pb1.0 = newTransceiver and ?c1.0 = "newConn\<lparr>buf := []\<rparr>" and prev = "[7]"]
      sc rd z
    by (auto simp: newConn_def idleConn_def setWriteDeadline_def closeConn_def errLogPrint_def)
qed

text \<open>
  The claim as stated says that the isolated zero-length frame raises the
  malformed-packet error; the error that \<open>readPacket\<close> returns is \<open>ErrInvalidConn\<close>.
\<close>

theorem isolated_zero_frame_counterexample:
  "fst (readPacket (\<lambda>x. ([], None)) newTransceiver (newConn\<lparr>buf := [0, 0, 0, 0]\<rparr>) False)
     = Inl ErrInvalidConn
   \<and> fst (readPacket (\<lambda>x. ([], None)) newTransceiver (newConn\<lparr>buf := [0, 0, 0, 0]\<rparr>) False)
     \<noteq> Inl ErrMalformPkt"
  by (simp add: readPacket_def readPacket_loop.simps readBytes_def buf_readNext_def
      newConn_def newTransceiver_def le24_eq closeConn_def errLogPrint_def)



subsection \<open>Sequence checks\<close>

lemma buf_readNext_fields:
  "buf_readNext mc n = (r, mc') \<Longrightarrow>
     sequence mc' = sequence mc \<and> compressionSequence mc' = compressionSequence mc"
  by (auto simp: buf_readNext_def split: if_splits)

lemma decompressPacket_sequence:
  "decompressPacket zr pd mc = (r, pd', mc') \<Longrightarrow> sequence mc' = sequence mc"
  by (auto simp: decompressPacket_def buf_readNext_def Let_def
      split: if_splits sum.splits prod.splits)

lemma pd_readNext_loop_sequence:
  "pd_readNext_loop zr pd mc need = (r, pd', mc') \<Longrightarrow> sequence mc' = sequence mc"
proof (induction zr pd mc need arbitrary: r pd' mc' rule: pd_readNext_loop.induct)
  case (1 zr pd mc need)
  obtain r1 pd1 mc1 where d: "decompressPacket zr pd mc = (r1, pd1, mc1)"
    by (cases "decompressPacket zr pd mc") auto
  note s1 = decompressPacket_sequence [OF d]
  show ?case
  proof (cases "r1 = None \<and> \<not> int need \<le> int (length (buffer pd1)) - int (index pd1)")
    case True
    with d "1.prems" have "pd_readNext_loop zr pd1 mc1 need = (r, pd', mc')"
      by (simp add: pd_readNext_loop.simps [of zr pd mc])
    from "1.IH" [OF d [symmetric] _ refl _ this] True s1 show ?thesis by simp
  next
    case False
    with d "1.prems" s1 show ?thesis
      by (auto simp: pd_readNext_loop.simps [of zr pd mc] split: option.splits if_splits)
  qed
qed

lemma readBytes_sequence:
  "readBytes zr pb mc compr n = (r, pb', mc') \<Longrightarrow> sequence mc' = sequence mc"
  by (auto simp: readBytes_def pd_readNext_def buf_readNext_def
      split: if_splits prod.splits option.splits dest: pd_readNext_loop_sequence)

lemma readBytes_plain: "readBytes zr pb mc False n = (r, pb', mc') \<Longrightarrow> pb' = pb"
  by (auto simp: readBytes_def split: prod.splits)

lemma readFailed_sequence: "readFailed mc err = (e, mc') \<Longrightarrow> sequence mc' = sequence mc"
  by (auto simp: readFailed_def closeConn_def errLogPrint_def split: option.splits)


text \<open>
  The invariant of the decompression arena: the cursor is within the buffer, the buffer
  within its capacity, and a \<open>nil\<close> buffer has no elements and no capacity.
\<close>

definition pd_ok :: "packetDecompressor \<Rightarrow> bool" where
  "pd_ok pd \<longleftrightarrow>
     index pd \<le> length (buffer pd) \<and> length (buffer pd) \<le> bufferCap pd
     \<and> (bufferNil pd \<longrightarrow> buffer pd = [] \<and> bufferCap pd = 0)"

lemma decompressPacket_mismatch:
  assumes "pd_ok pd" and "buf_readNext mc 7 = (Inr header, mc1)"
    and "hsequence header \<noteq> compressionSequence mc"
    and "decompressPacket zr pd mc = (r, pd', mc')"
  shows "r = Some (if hsequence header > compressionSequence mc then ErrPktSyncMul else ErrPktSync)"
    and "mc' = mc1" and "compressionSequence mc' = compressionSequence mc"
    and "drop (index pd') (buffer pd') = drop (index pd) (buffer pd)"
  using assms buf_readNext_fields [OF assms(2)]
  by (auto simp: decompressPacket_def Let_def pd_ok_def split: if_splits)

lemma decompressPacket_match:
  assumes "buf_readNext mc 7 = (Inr header, mc1)"
    and "hsequence header = compressionSequence mc"
    and "decompressPacket zr pd mc = (r, pd', mc')"
  shows "compressionSequence mc' = compressionSequence mc + 1"
proof -
  let ?mc2 = "mc1\<lparr>compressionSequence := compressionSequence mc1 + 1\<rparr>"
  obtain r3 mc3 where b: "buf_readNext ?mc2 (payload header) = (r3, mc3)"
    by (cases "buf_readNext ?mc2 (payload header)") auto
  from buf_readNext_fields [OF b] buf_readNext_fields [OF assms(1)]
  have "compressionSequence mc3 = compressionSequence mc + 1" by simp
  with assms b buf_readNext_fields [OF assms(1)] show ?thesis
    by (auto simp: decompressPacket_def Let_def split: if_splits sum.splits)
qed

lemma readPacket_loop_mismatch:
  assumes "readBytes zr pb mc compr 4 = (Inr hdr, pb1, mc1)"
    and "hdr ! 3 \<noteq> sequence mc"
  shows "readPacket_loop zr pb mc compr prev =
      (Inl (if hdr ! 3 > sequence mc then ErrPktSyncMul else ErrPktSync), pb1, mc1)"
  using assms readBytes_sequence [OF assms(1)]
  by (simp add: readPacket_loop.simps [of zr pb mc compr])

lemma readPacket_loop_match_last:
  assumes "readBytes zr pb mc compr 4 = (Inr hdr, pb1, mc1)"
    and "hdr ! 3 = sequence mc"
    and "le24 (hdr ! 0) (hdr ! 1) (hdr ! 2) \<noteq> maxPacketSize"
    and "readPacket_loop zr pb mc compr prev = (res, pb', mc')"
  shows "sequence mc' = sequence mc + 1"
proof -
  let ?n = "le24 (hdr ! 0) (hdr ! 1) (hdr ! 2)"
  let ?mc2 = "mc1\<lparr>sequence := sequence mc1 + 1\<rparr>"
  have lt: "?n < maxPacketSize"
    using le24_bound [of "hdr ! 0" "hdr ! 1" "hdr ! 2"] assms(3) by (simp add: maxPacketSize_def)
  note s1 = readBytes_sequence [OF assms(1)]
  obtain r2 pb2 mc3 where b: "readBytes zr pb1 ?mc2 compr ?n = (r2, pb2, mc3)"
    by (cases "readBytes zr pb1 ?mc2 compr ?n") auto
  note s3 = readBytes_sequence [OF b]
  show ?thesis
  proof (cases r2)
    case (Inl err)
    obtain e mc4 where f: "readFailed mc3 err = (e, mc4)"
      by (cases "readFailed mc3 err") auto
    from assms s1 b Inl f s3 readFailed_sequence [OF f] show ?thesis
      by (auto simp: readPacket_loop.simps [of zr pb mc compr] Let_def closeConn_def
          errLogPrint_def split: option.splits if_splits)
  next
    case (Inr body)
    with assms s1 b s3 lt show ?thesis
      by (auto simp: readPacket_loop.simps [of zr pb mc compr] Let_def closeConn_def
          errLogPrint_def split: option.splits if_splits)
  qed
qed

lemma readPacket_loop_match_more:
  assumes "readBytes zr pb mc compr 4 = (Inr hdr, pb1, mc1)"
    and "hdr ! 3 = sequence mc"
    and "le24 (hdr ! 0) (hdr ! 1) (hdr ! 2) = maxPacketSize"
    and "readBytes zr pb1 (mc1\<lparr>sequence := sequence mc1 + 1\<rparr>) compr maxPacketSize
           = (Inr body, pb2, mc3)"
  shows "sequence mc3 = sequence mc + 1"
    and "readPacket_loop zr pb mc compr prev = readPacket_loop zr pb2 mc3 compr (go_append prev body)"
  using assms readBytes_sequence [OF assms(1)] readBytes_sequence [OF assms(4)]
  by (simp_all add: readPacket_loop.simps [of zr pb mc compr] maxPacketSize_def)


lemma readPacket_loop_match_full_fail:
  assumes "readBytes zr pb mc compr 4 = (Inr hdr, pb1, mc1)"
    and "hdr ! 3 = sequence mc"
    and "le24 (hdr ! 0) (hdr ! 1) (hdr ! 2) = maxPacketSize"
    and "readBytes zr pb1 (mc1\<lparr>sequence := sequence mc1 + 1\<rparr>) compr maxPacketSize
           = (Inl err, pb2, mc3)"
    and "readPacket_loop zr pb mc compr prev = (res, pb', mc')"
  shows "sequence mc' = sequence mc + 1"
proof -
  obtain e mc4 where f: "readFailed mc3 err = (e, mc4)"
    by (cases "readFailed mc3 err") auto
  from assms f readBytes_sequence [OF assms(1)] readBytes_sequence [OF assms(4)]
    readFailed_sequence [OF f]
  show ?thesis
    by (auto simp: readPacket_loop.simps [of zr pb mc compr] maxPacketSize_def)
qed

lemma readBytes_from_arena:
  assumes "int n \<le> int (length (buffer (decompressor pb))) - int (index (decompressor pb))"
  shows "readBytes zr pb mc True n =
     (Inr (take n (drop (index (decompressor pb)) (buffer (decompressor pb)))),
      pb\<lparr>decompressor := (decompressor pb)\<lparr>index := index (decompressor pb) + n\<rparr>\<rparr>, mc)"
  using assms by (simp add: readBytes_def pd_readNext_def)

lemma byte_greater: "unat (s::byte) = unat (e::byte) + 1 \<Longrightarrow> e < s"
  by (simp add: word_less_nat_alt)

lemma byte_smaller: "unat (s::byte) + 1 = unat (e::byte) \<Longrightarrow> s < e"
  by (simp add: word_less_nat_alt)

text \<open>
  C3, as the code has it. Both layers compare the frame's sequence byte with the
  expected counter \<open>e\<close>: a greater one gives \<open>ErrPktSyncMul\<close>, a smaller one
  \<open>ErrPktSync\<close>; so the value \<open>e + 1\<close> gives \<open>ErrPktSyncMul\<close> and the value \<open>e - 1\<close>
  gives \<open>ErrPktSync\<close>. On a mismatch the expected counter keeps its value. In
  \<open>decompressPacket\<close> the pending bytes of the arena are then what they were before the
  call. In \<open>readPacket\<close> the state returned is the one that the reading of the four
  header bytes left: without compression the transceiver, and so the arena, is
  untouched; with compression the header has been read through the arena, so the
  arena's pending bytes are not what they were: when the four bytes were pending
  already, the buffer is the same and the cursor has moved past them. On a match the
  expected counter is incremented by exactly 1: in \<open>decompressPacket\<close> in every outcome;
  in \<open>readPacket\<close> in every outcome of a frame shorter than \<open>maxPacketSize\<close>, and for a
  full frame both when the reading of its body fails and, when it succeeds, in the state
  with which the loop goes on to the next frame.
\<close>

theorem sequence_enforcement:
  "(pd_ok pd \<and> buf_readNext mc 7 = (Inr header, mc1)
      \<and> decompressPacket zr pd mc = (r, pd', mc') \<longrightarrow>
      (hsequence header \<noteq> compressionSequence mc \<longrightarrow>
         r = Some (if hsequence header > compressionSequence mc then ErrPktSyncMul
                   else ErrPktSync)
         \<and> mc' = mc1 \<and> compressionSequence mc' = compressionSequence mc
         \<and> drop (index pd') (buffer pd') = drop (index pd) (buffer pd))
      \<and> (unat (hsequence header) = unat (compressionSequence mc) + 1 \<longrightarrow>
           r = Some ErrPktSyncMul)
      \<and> (unat (hsequence header) + 1 = unat (compressionSequence mc) \<longrightarrow>
           r = Some ErrPktSync)
      \<and> (hsequence header = compressionSequence mc \<longrightarrow>
           compressionSequence mc' = compressionSequence mc + 1))
   \<and> (readBytes zr pb c compr 4 = (Inr hdr, pb1, c1)
      \<and> readPacket_loop zr pb c compr prev = (res, pb', c') \<longrightarrow>
      (hdr ! 3 \<noteq> sequence c \<longrightarrow>
         res = Inl (if hdr ! 3 > sequence c then ErrPktSyncMul else ErrPktSync)
         \<and> pb' = pb1 \<and> c' = c1 \<and> sequence c' = sequence c
         \<and> (\<not> compr \<longrightarrow> pb' = pb)
         \<and> (compr \<and> int 4 \<le> int (length (buffer (decompressor pb)))
                              - int (index (decompressor pb)) \<longrightarrow>
              buffer (decompressor pb') = buffer (decompressor pb)
              \<and> index (decompressor pb') = index (decompressor pb) + 4))
      \<and> (unat (hdr ! 3) = unat (sequence c) + 1 \<longrightarrow> res = Inl ErrPktSyncMul)
      \<and> (unat (hdr ! 3) + 1 = unat (sequence c) \<longrightarrow> res = Inl ErrPktSync)
      \<and> (hdr ! 3 = sequence c \<and> le24 (hdr ! 0) (hdr ! 1) (hdr ! 2) \<noteq> maxPacketSize \<longrightarrow>
           sequence c' = sequence c + 1)
      \<and> (\<forall>err pb2 c3.
           hdr ! 3 = sequence c \<and> le24 (hdr ! 0) (hdr ! 1) (hdr ! 2) = maxPacketSize
           \<and> readBytes zr pb1 (c1\<lparr>sequence := sequence c1 + 1\<rparr>) compr maxPacketSize
               = (Inl err, pb2, c3) \<longrightarrow>
           sequence c' = sequence c + 1)
      \<and> (\<forall>body pb2 c3.
           hdr ! 3 = sequence c \<and> le24 (hdr ! 0) (hdr ! 1) (hdr ! 2) = maxPacketSize
           \<and> readBytes zr pb1 (c1\<lparr>sequence := sequence c1 + 1\<rparr>) compr maxPacketSize
               = (Inr body, pb2, c3) \<longrightarrow>
           sequence c3 = sequence c + 1
           \<and> readPacket_loop zr pb c compr prev
               = readPacket_loop zr pb2 c3 compr (go_append prev body)))"
proof (intro conjI impI allI)
  assume a: "pd_ok pd \<and> buf_readNext mc 7 = (Inr header, mc1)
      \<and> decompressPacket zr pd mc = (r, pd', mc')"
  then have ok: "pd_ok pd" and rd: "buf_readNext mc 7 = (Inr header, mc1)"
    and d: "decompressPacket zr pd mc = (r, pd', mc')"
    by simp_all
  {
    assume ne: "hsequence header \<noteq> compressionSequence mc"
    note m = decompressPacket_mismatch [OF ok rd ne d]
    show "r = Some (if hsequence header > compressionSequence mc then ErrPktSyncMul
                   else ErrPktSync)"
      by (rule m(1))
    show "mc' = mc1" by (rule m(2))
    show "compressionSequence mc' = compressionSequence mc" by (rule m(3))
    show "drop (index pd') (buffer pd') = drop (index pd) (buffer pd)" by (rule m(4))
  }
  {
    assume "unat (hsequence header) = unat (compressionSequence mc) + 1"
    then have gt: "compressionSequence mc < hsequence header"
      by (rule byte_greater)
    then have "hsequence header \<noteq> compressionSequence mc" by auto
    from decompressPacket_mismatch(1) [OF ok rd this d] gt
    show "r = Some ErrPktSyncMul" by simp
  }
  {
    assume "unat (hsequence header) + 1 = unat (compressionSequence mc)"
    then have lt: "hsequence header < compressionSequence mc"
      by (rule byte_smaller)
    then have "hsequence header \<noteq> compressionSequence mc" by auto
    from decompressPacket_mismatch(1) [OF ok rd this d] lt
    show "r = Some ErrPktSync" by auto
  }
  {
    assume "hsequence header = compressionSequence mc"
    from decompressPacket_match [OF rd this d]
    show "compressionSequence mc' = compressionSequence mc + 1" .
  }
next
  assume a: "readBytes zr pb c compr 4 = (Inr hdr, pb1, c1)
      \<and> readPacket_loop zr pb c compr prev = (res, pb', c')"
  then have rd: "readBytes zr pb c compr 4 = (Inr hdr, pb1, c1)"
    and l: "readPacket_loop zr pb c compr prev = (res, pb', c')"
    by simp_all
  {
    assume ne: "hdr ! 3 \<noteq> sequence c"
    from readPacket_loop_mismatch [OF rd ne, of prev] l
    show "res = Inl (if hdr ! 3 > sequence c then ErrPktSyncMul else ErrPktSync)"
      and p1: "pb' = pb1" and "c' = c1"
      by simp_all
    with readBytes_sequence [OF rd] show "sequence c' = sequence c" by simp
    {
      assume "\<not> compr"
      with rd readBytes_plain [of zr pb c 4 "Inr hdr" pb1 c1] p1
      show "pb' = pb" by simp
    }
    {
      assume "compr \<and> int 4 \<le> int (length (buffer (decompressor pb)))
                              - int (index (decompressor pb))"
      then have cm: compr and en: "int 4 \<le> int (length (buffer (decompressor pb)))
                              - int (index (decompressor pb))"
        by simp_all
      from readBytes_from_arena [OF en, of zr c] rd cm p1
      show "buffer (decompressor pb') = buffer (decompressor pb)"
        and "index (decompressor pb') = index (decompressor pb) + 4"
        by auto
    }
  }
  {
    assume "unat (hdr ! 3) = unat (sequence c) + 1"
    then have gt: "sequence c < hdr ! 3"
      by (rule byte_greater)
    then have "hdr ! 3 \<noteq> sequence c" by auto
    from readPacket_loop_mismatch [OF rd this, of prev] l gt
    show "res = Inl ErrPktSyncMul" by simp
  }
  {
    assume "unat (hdr ! 3) + 1 = unat (sequence c)"
    then have lt: "hdr ! 3 < sequence c"
      by (rule byte_smaller)
    then have "hdr ! 3 \<noteq> sequence c" by auto
    from readPacket_loop_mismatch [OF rd this, of prev] l lt
    show "res = Inl ErrPktSync" by auto
  }
  {
    assume "hdr ! 3 = sequence c \<and> le24 (hdr ! 0) (hdr ! 1) (hdr ! 2) \<noteq> maxPacketSize"
    then show "sequence c' = sequence c + 1"
      using readPacket_loop_match_last [OF rd _ _ l] by simp
  }
  {
    fix err pb2 c3
    assume "hdr ! 3 = sequence c \<and> le24 (hdr ! 0) (hdr ! 1) (hdr ! 2) = maxPacketSize
           \<and> readBytes zr pb1 (c1\<lparr>sequence := sequence c1 + 1\<rparr>) compr maxPacketSize
               = (Inl err, pb2, c3)"
    then have m: "hdr ! 3 = sequence c" "le24 (hdr ! 0) (hdr ! 1) (hdr ! 2) = maxPacketSize"
      "readBytes zr pb1 (c1\<lparr>sequence := sequence c1 + 1\<rparr>) compr maxPacketSize
               = (Inl err, pb2, c3)"
      by simp_all
    show "sequence c' = sequence c + 1"
      by (rule readPacket_loop_match_full_fail [OF rd m l])
  }
  {
    fix body pb2 c3
    assume "hdr ! 3 = sequence c \<and> le24 (hdr ! 0) (hdr ! 1) (hdr ! 2) = maxPacketSize
           \<and> readBytes zr pb1 (c1\<lparr>sequence := sequence c1 + 1\<rparr>) compr maxPacketSize
               = (Inr body, pb2, c3)"
    then have m: "hdr ! 3 = sequence c" "le24 (hdr ! 0) (hdr ! 1) (hdr ! 2) = maxPacketSize"
      "readBytes zr pb1 (c1\<lparr>sequence := sequence c1 + 1\<rparr>) compr maxPacketSize
               = (Inr body, pb2, c3)"
      by simp_all
    show "sequence c3 = sequence c + 1"
      by (rule readPacket_loop_match_more(1) [OF rd m])
    show "readPacket_loop zr pb c compr prev
               = readPacket_loop zr pb2 c3 compr (go_append prev body)"
      by (rule readPacket_loop_match_more(2) [OF rd m])
  }
qed

text \<open>
  The example: a compressed-layer frame with sequence 6 where 5 is expected, and a frame
  with protocol sequence 4 where 5 is expected, read through an arena that holds it.
\<close>

theorem sequence_enforcement_witness:
  "fst (decompressPacket (\<lambda>x. ([], None)) (decompressor newTransceiver)
          (newConn\<lparr>compressionSequence := 5, buf := [0, 0, 0, 6, 0, 0, 0]\<rparr>))
     = Some ErrPktSyncMul
   \<and> compressionSequence (snd (snd (decompressPacket (\<lambda>x. ([], None)) (decompressor newTransceiver)
          (newConn\<lparr>compressionSequence := 5, buf := [0, 0, 0, 6, 0, 0, 0]\<rparr>))))
     = 5
   \<and> readPacket_loop (\<lambda>x. ([], None))
        (newTransceiver\<lparr>decompressor := \<lparr>buffer = [1, 0, 0, 4, 7], bufferCap = 16384,
            bufferNil = False, index = 0, decompressorSet = False\<rparr>\<rparr>)
        (newConn\<lparr>sequence := 5\<rparr>) True None
     = (Inl ErrPktSync,
        newTransceiver\<lparr>decompressor := \<lparr>buffer = [1, 0, 0, 4, 7], bufferCap = 16384,
            bufferNil = False, index = 4, decompressorSet = False\<rparr>\<rparr>,
        newConn\<lparr>sequence := 5\<rparr>)"
proof -
  let ?z = "\<lambda>x::byte list. ([]::byte list, None::error option)"
  let ?pd = "decompressor newTransceiver"
  let ?mc = "newConn\<lparr>compressionSequence := 5, buf := [0, 0, 0, 6, 0, 0, 0]\<rparr>"
  let ?pb = "newTransceiver\<lparr>decompressor := \<lparr>buffer = [1, 0, 0, 4, 7], bufferCap = 16384,
            bufferNil = False, index = 0, decompressorSet = False\<rparr>\<rparr>"
  let ?pb1 = "newTransceiver\<lparr>decompressor := \<lparr>buffer = [1, 0, 0, 4, 7], bufferCap = 16384,
            bufferNil = False, index = 4, decompressorSet = False\<rparr>\<rparr>"
  let ?c = "newConn\<lparr>sequence := 5\<rparr>"
  let ?d = "decompressPacket ?z ?pd ?mc"
  let ?l = "readPacket_loop ?z ?pb ?c True None"
  have ok: "pd_ok ?pd"
    by (simp add: pd_ok_def newTransceiver_def)
  have rd: "buf_readNext ?mc 7 = (Inr [0, 0, 0, 6, 0, 0, 0], ?mc\<lparr>buf := []\<rparr>)"
    by (simp add: buf_readNext_def)
  have rb: "readBytes ?z ?pb ?c True 4 = (Inr [1, 0, 0, 4], ?pb1, ?c)"
    by (simp add: readBytes_def pd_readNext_def newTransceiver_def)
  have s: "unat (hsequence [0, 0, 0, 6, 0, 0, 0]) = unat (compressionSequence ?mc) + 1"
    "unat ([1, 0, 0, 4 :: byte] ! 3) + 1 = unat (sequence ?c)"
    by (simp_all add: hsequence_def)
  have ne: "hsequence [0, 0, 0, 6, 0, 0, 0] \<noteq> compressionSequence ?mc"
    "[1, 0, 0, 4 :: byte] ! 3 \<noteq> sequence ?c"
    by (simp_all add: hsequence_def)
  from sequence_enforcement [where pd = "?pd" and mc = "?mc" and zr = "?z"
      and header = "[0, 0, 0, 6, 0, 0, 0]" and ?mc1.0 = "?mc\<lparr>buf := []\<rparr>"
      and r = "fst ?d" and pd' = "fst (snd ?d)" and mc' = "snd (snd ?d)"
      and pb = "?pb" and c = "?c" and compr = True and hdr = "[1, 0, 0, 4]"
      and ?pb1.0 = "?pb1" and ?c1.0 = "?c" and prev = None
      and res = "fst ?l" and pb' = "fst (snd ?l)" and c' = "snd (snd ?l)"]
    ok rd rb s ne
  have "fst ?d = Some ErrPktSyncMul \<and> compressionSequence (snd (snd ?d)) = 5
      \<and> fst ?l = Inl ErrPktSync \<and> fst (snd ?l) = ?pb1 \<and> snd (snd ?l) = ?c"
    by (simp add: hsequence_def)
  then show ?thesis
    by (metis prod.collapse)
qed

text \<open>
  The claim as stated fails for \<open>readPacket\<close> with compression: the four header bytes
  are taken from the arena before the sequence is compared. A frame with sequence
  \<open>0 + 1\<close> where 0 is expected gives \<open>ErrPktSyncMul\<close>, and of the five pending bytes of
  the arena one is left. The same happens when the arena is empty at first and the
  header arrives in a compressed-layer frame.
\<close>

theorem sequence_mismatch_arena_counterexample:
  "readPacket (\<lambda>x. ([], None))
        (newTransceiver\<lparr>decompressor := \<lparr>buffer = [1, 0, 0, 1, 7], bufferCap = 16384,
            bufferNil = False, index = 0, decompressorSet = False\<rparr>\<rparr>)
        newConn True
     = (Inl ErrPktSyncMul,
        newTransceiver\<lparr>decompressor := \<lparr>buffer = [1, 0, 0, 1, 7], bufferCap = 16384,
            bufferNil = False, index = 4, decompressorSet = False\<rparr>\<rparr>,
        newConn)
   \<and> drop 0 [1, 0, 0, 1, 7 :: byte] \<noteq> drop 4 [1, 0, 0, 1, 7]
   \<and> readPacket (\<lambda>x. ([], None)) newTransceiver
        (newConn\<lparr>buf := [5, 0, 0, 0, 0, 0, 0, 1, 0, 0, 1, 7]\<rparr>) True
     = (Inl ErrPktSyncMul,
        newTransceiver\<lparr>decompressor := \<lparr>buffer = [1, 0, 0, 1, 7], bufferCap = 16384,
            bufferNil = False, index = 4, decompressorSet = False\<rparr>\<rparr>,
        newConn\<lparr>buf := [], compressionSequence := 1\<rparr>)"
  by (simp add: readPacket_def readPacket_loop.simps readBytes_def pd_readNext_def
      pd_readNext_loop.simps decompressPacket_def buf_readNext_def hsequence_def payload_def
      uncompressedLength_def le24_eq grow_def defaultDecompressBufferSize_def
      newTransceiver_def newConn_def Let_def)

subsection \<open>The frames of the packet compressor\<close>

text \<open>The seven header bytes as the three setters leave them, starting from zero.\<close>

definition header7 :: "nat \<Rightarrow> byte \<Rightarrow> nat \<Rightarrow> byte list" where
  "header7 p s u = setUncompressedLength (setSequence (setPayload zeroHeader p) s) u"

lemma header7_bytes:
  "header7 p s u = [of_nat p, of_nat (drop_bit 8 p), of_nat (drop_bit 16 p), s,
                    of_nat u, of_nat (drop_bit 8 u), of_nat (drop_bit 16 u)]"
  by (simp add: header7_def setUncompressedLength_def setSequence_def setPayload_def
      zeroHeader_def numeral_eq_Suc)

lemma length_header7 [simp]: "length (header7 p s u) = 7"
  by (simp add: header7_bytes)

lemma header7_fields:
  "hsequence (header7 p s u) = s"
  "p < 16777216 \<Longrightarrow> payload (header7 p s u) = p"
  "u < 16777216 \<Longrightarrow> uncompressedLength (header7 p s u) = u"
  by (simp_all add: header7_bytes hsequence_def payload_def uncompressedLength_def le24_encode)

lemma writeToBuffer_False:
  "writeToBuffer zw pc data seq False =
     (Inr (min (length data) maxPacketSize),
      pc\<lparr>cbuffer := header7 (min (length data) maxPacketSize) seq 0
                       @ take (min (length data) maxPacketSize) data\<rparr>)"
  by (simp add: writeToBuffer_literal header7_def)

lemma go_copy_header7: "go_copy (zeroHeader @ w) (header7 p s u) = header7 p s u @ w"
  by (simp add: go_copy_def zeroHeader_def)

lemma writeToBuffer_True:
  "writeToBuffer zw pc data seq True =
     (let (written, err) = zw data;
          compressedLength = (case err of None \<Rightarrow> length written | Some e \<Rightarrow> 0)
      in if compressedLength > maxPacketSize \<or> compressedLength > length data then
           writeToBuffer zw (pc\<lparr>compressorSet := True, cbuffer := zeroHeader @ written\<rparr>)
             data seq False
         else (Inr (length data),
               pc\<lparr>compressorSet := True,
                  cbuffer := header7 compressedLength seq (length data) @ written\<rparr>))"
  apply (subst writeToBuffer.simps)
  apply (auto simp: Let_def compress_def go_copy_header7 header7_def [symmetric]
      split: prod.splits option.splits)
  done


lemma compress_result:
  "compress zw data zeroHeader =
     (case zw data of
        (written, None) \<Rightarrow> ((length written, None), zeroHeader @ written)
      | (written, Some e) \<Rightarrow> ((0, Some e), zeroHeader @ written))"
  by (simp add: compress_def Let_def split: prod.splits option.splits)

lemma header7_small:
  "p < 256 \<Longrightarrow> u < 256 \<Longrightarrow> header7 p s u = [of_nat p, 0, 0, s, of_nat u, 0, 0]"
  by (simp add: header7_bytes drop_bit_eq_div)

text \<open>
  What is asked of one frame of the compressor, for the piece of the chunk it carries
  and the compression sequence it is sent with: the frame is a header of seven bytes and
  a body; the piece has between 1 and \<open>maxPacketSize\<close> bytes; both 24-bit fields of the
  header, read back from its bytes, are at most \<open>maxPacketSize\<close> and are the numbers
  that were to be written: for a literal frame the uncompressed length is 0, the payload
  length is the length of the piece and the body is the piece; for a compressed frame
  the uncompressed length is the length of the piece, the payload length is the length
  that \<open>compress\<close> returned for the piece, not above the length of the piece, and the body
  is what \<open>compress\<close> appended after the header. \<open>framesFit\<close> asks it of a list of
  frames, sent with consecutive sequence numbers.
\<close>

definition fittingFrame :: "zlibWriter \<Rightarrow> byte \<Rightarrow> byte list \<Rightarrow> byte list \<Rightarrow> bool" where
  "fittingFrame zw seq piece frame =
     (let hdr = take 7 frame; body = drop 7 frame
      in 7 \<le> length frame \<and> hsequence hdr = seq
         \<and> 0 < length piece \<and> length piece \<le> maxPacketSize
         \<and> payload hdr \<le> maxPacketSize \<and> uncompressedLength hdr \<le> maxPacketSize
         \<and> (uncompressedLength hdr = 0 \<and> payload hdr = length piece \<and> body = piece
            \<or> uncompressedLength hdr = length piece \<and> length piece < minCompressSize
              \<and> payload hdr = fst (fst (compress zw piece zeroHeader))
              \<and> payload hdr \<le> length piece
              \<and> zeroHeader @ body = snd (compress zw piece zeroHeader)))"

fun framesFit :: "zlibWriter \<Rightarrow> byte \<Rightarrow> byte list list \<Rightarrow> byte list list \<Rightarrow> bool" where
  "framesFit zw seq [] [] = True"
| "framesFit zw seq (p # ps) (f # fs) = (fittingFrame zw seq p f \<and> framesFit zw (seq + 1) ps fs)"
| "framesFit zw seq [] (f # fs) = False"
| "framesFit zw seq (p # ps) [] = False"

lemma sendLoop_prefix:
  "sendLoop rs out data i = Some (r, rs', out') \<Longrightarrow> \<exists>k. out' = out @ take k (drop i data)"
proof (induction rs out data i rule: sendLoop.induct)
  case (1 rs out data i)
  show ?case
  proof (cases "i < length data")
    case False
    with "1.prems" have "out' = out"
      by (simp add: sendLoop_done)
    then show ?thesis
      by (intro exI [of _ 0]) simp
  next
    case True
    with "1.prems" obtain w rs1 where rs: "rs = w # rs1"
      by (cases rs) (simp_all add: sendLoop_Nil)
    obtain k e where cw: "connWrite w (drop i data) = (k, e)"
      by (cases "connWrite w (drop i data)") auto
    show ?thesis
    proof (cases e)
      case (Some a)
      with "1.prems" True rs cw have "out' = out @ take k (drop i data)"
        by (simp add: sendLoop_Cons)
      then show ?thesis by blast
    next
      case None
      with "1.prems" True rs cw
      have r: "sendLoop rs1 (out @ take k (drop i data)) data (i + k) = Some (r, rs', out')"
        by (simp add: sendLoop_Cons)
      from "1.IH" [OF True rs cw [symmetric] refl refl refl _ r] None
      obtain j where j: "out' = (out @ take k (drop i data)) @ take j (drop (i + k) data)"
        by auto
      have "drop k (drop i data) = drop (i + k) data"
        by (simp add: add.commute)
      with take_add [of k j "drop i data"]
      have "take k (drop i data) @ take j (drop (i + k) data) = take (k + j) (drop i data)"
        by simp
      with j show ?thesis
        by (intro exI [of _ "k + j"]) simp
    qed
  qed
qed

lemma sendToNetwork_prefix:
  "sendToNetwork conn data = Some (r, conn') \<Longrightarrow> \<exists>k. sent conn' = sent conn @ take k data"
  by (auto simp: sendToNetwork_def split: option.splits dest!: sendLoop_prefix)

lemma fittingFrame_literal:
  assumes "data \<noteq> []"
  shows "fittingFrame zw seq (take (min (length data) maxPacketSize) data)
           (header7 (min (length data) maxPacketSize) seq 0
              @ take (min (length data) maxPacketSize) data)"
  using assms
  by (simp add: fittingFrame_def header7_fields maxPacketSize_def)

lemma fittingFrame_compressed:
  assumes "data \<noteq> []" and "length data < minCompressSize" and "zw data = (written, err)"
    and "cl = (case err of None \<Rightarrow> length written | Some e \<Rightarrow> 0)"
    and "cl \<le> length data"
  shows "fittingFrame zw seq data (header7 cl seq (length data) @ written)"
proof -
  have small: "cl < 16777216" "length data < 16777216"
    using assms by (simp_all add: minCompressSize_def)
  have c: "fst (fst (compress zw data zeroHeader)) = cl"
    "snd (compress zw data zeroHeader) = zeroHeader @ written"
    using assms(3,4) by (simp_all add: compress_result split: option.splits)
  show ?thesis
    using assms small c
    by (simp add: fittingFrame_def header7_fields maxPacketSize_def minCompressSize_def)
qed

lemma writeToBuffer_frame:
  assumes "i < length packet"
    and "writeToBuffer zw pc (drop i packet) seq (length packet - i < minCompressSize) = (r, pc')"
  shows "\<exists>n. r = Inr n \<and> 0 < n \<and> n \<le> length packet - i
      \<and> fittingFrame zw seq (take n (drop i packet)) (cbuffer pc')"
proof -
  let ?data = "drop i packet"
  let ?m = "min (length ?data) maxPacketSize"
  have len: "length ?data = length packet - i" "?data \<noteq> []"
    using assms(1) by simp_all
  have m: "0 < ?m" "?m \<le> length packet - i"
    using assms(1) by (simp_all add: maxPacketSize_def)
  note lit = fittingFrame_literal [OF len(2), of zw seq]
  show ?thesis
  proof (cases "length packet - i < minCompressSize")
    case False
    with assms(2) have "r = Inr ?m" "cbuffer pc' = header7 ?m seq 0 @ take ?m ?data"
      by (auto simp: writeToBuffer_False)
    with lit m show ?thesis by simp
  next
    case True
    obtain written err where z: "zw ?data = (written, err)"
      by (cases "zw ?data") auto
    define cl where "cl = (case err of None \<Rightarrow> length written | Some e \<Rightarrow> 0)"
    show ?thesis
    proof (cases "cl > maxPacketSize \<or> cl > length ?data")
      case True
      with assms(2) \<open>length packet - i < minCompressSize\<close> z
      have "r = Inr ?m" "cbuffer pc' = header7 ?m seq 0 @ take ?m ?data"
        by (auto simp: writeToBuffer_True writeToBuffer_False cl_def)
      with lit m show ?thesis by simp
    next
      case False
      with assms(2) True z
      have r: "r = Inr (length ?data)"
        and b: "cbuffer pc' = header7 cl seq (length ?data) @ written"
        by (auto simp: writeToBuffer_True cl_def)
      from False have le: "cl \<le> length ?data" by simp
      from True len have sm: "length ?data < minCompressSize" by simp
      have "fittingFrame zw seq ?data (header7 cl seq (length ?data) @ written)"
        using len(2) sm z cl_def le by (rule fittingFrame_compressed)
      with r b len assms(1) show ?thesis by simp
    qed
  qed
qed

lemma pc_writePacket_loop_frames:
  "pc_writePacket_loop zw pc mc packet i = Some ((n, err), pc', mc') \<Longrightarrow> i \<le> length packet
     \<Longrightarrow> \<exists>pieces frames k.
          framesFit zw (compressionSequence mc) pieces frames
          \<and> i \<le> n \<and> n \<le> length packet
          \<and> concat pieces = take (n - i) (drop i packet)
          \<and> sent (netConn mc') = sent (netConn mc) @ concat frames @ take k (cbuffer pc')
          \<and> (err = None \<longrightarrow> k = 0 \<and> n = length packet)
          \<and> (err \<noteq> None \<longrightarrow>
               (\<exists>m. fittingFrame zw (compressionSequence mc + of_nat (length pieces))
                      (take m (drop n packet)) (cbuffer pc')))"
proof (induction zw pc mc packet i arbitrary: rule: pc_writePacket_loop.induct)
  case (1 zw pc mc packet i)
  define Q where "Q = (\<lambda>(mc0::mysqlConn) (i0::nat) (pieces::byte list list)
      (frames::byte list list) (k::nat).
          framesFit zw (compressionSequence mc0) pieces frames
          \<and> i0 \<le> n \<and> n \<le> length packet
          \<and> concat pieces = take (n - i0) (drop i0 packet)
          \<and> sent (netConn mc') = sent (netConn mc0) @ concat frames @ take k (cbuffer pc')
          \<and> (err = None \<longrightarrow> k = 0 \<and> n = length packet)
          \<and> (err \<noteq> None \<longrightarrow>
               (\<exists>m. fittingFrame zw (compressionSequence mc0 + of_nat (length pieces))
                      (take m (drop n packet)) (cbuffer pc'))))"
  have "\<exists>pieces frames k. Q mc i pieces frames k"
  proof (cases "i < length packet")
    case False
    with "1.prems" have "n = length packet" "err = None" "mc' = mc" "i = length packet"
      by (simp_all add: pc_writePacket_loop.simps [of zw pc mc packet i])
    then have "Q mc i [] [] 0"
      by (simp add: Q_def)
    then show ?thesis by blast
  next
    case True
    obtain bw pc1 where w: "writeToBuffer zw pc (drop i packet) (compressionSequence mc)
        (length packet - i < minCompressSize) = (Inr bw, pc1)"
      using writeToBuffer_Inr by blast
    from writeToBuffer_frame [OF True w]
    have bw: "0 < bw" "bw \<le> length packet - i"
      and ff: "fittingFrame zw (compressionSequence mc) (take bw (drop i packet)) (cbuffer pc1)"
      by simp_all
    show ?thesis
    proof (cases "setWriteDeadline mc")
      case (Some a)
      with "1.prems" True w have "err = Some a" "mc' = mc" "pc' = pc1" "n = i"
        by (simp_all add: pc_writePacket_loop.simps [of zw pc mc packet i])
      with ff True have "Q mc i [] [] 0"
        by (auto simp: Q_def)
      then show ?thesis by blast
    next
      case None
      with "1.prems" True w obtain n1 e1 conn' where
        s: "sendToNetwork (netConn mc) (cbuffer pc1) = Some ((n1, e1), conn')"
        by (auto simp: pc_writePacket_loop.simps [of zw pc mc packet i] split: option.splits)
      show ?thesis
      proof (cases e1)
        case (Some a)
        with "1.prems" True w None s
        have "err = Some a" "mc' = mc\<lparr>netConn := conn'\<rparr>" "pc' = pc1" "n = i"
          by (simp_all add: pc_writePacket_loop.simps [of zw pc mc packet i])
        moreover from sendToNetwork_prefix [OF s]
        obtain k where "sent conn' = sent (netConn mc) @ take k (cbuffer pc1)"
          by blast
        ultimately have "Q mc i [] [] k"
          using ff True by (auto simp: Q_def)
        then show ?thesis by blast
      next
        case None2: None
        with s sendToNetwork_nil
        have n1: "n1 = length (cbuffer pc1)" and st: "sent conn' = sent (netConn mc) @ cbuffer pc1"
          by blast+
        let ?mc2 = "(mc\<lparr>netConn := conn'\<rparr>)\<lparr>compressionSequence :=
               compressionSequence (mc\<lparr>netConn := conn'\<rparr>) + 1\<rparr>"
        from "1.prems" True w None s None2 n1
        have r: "pc_writePacket_loop zw pc1 ?mc2 packet (i + bw) = Some ((n, err), pc', mc')"
          by (simp add: pc_writePacket_loop.simps [of zw pc mc packet i])
        from bw True have le: "i + bw \<le> length packet" by simp
        have ne: "e1 = None" "\<not> n1 \<noteq> length (cbuffer pc1)"
          using None2 n1 by simp_all
        have "\<exists>pieces frames k. Q ?mc2 (i + bw) pieces frames k"
          unfolding Q_def
          by (rule "1.IH" [OF True refl w [symmetric] refl None s refl refl refl _ _ r le])
            (simp_all add: ne)
        then obtain pieces frames k where q: "Q ?mc2 (i + bw) pieces frames k"
          by blast
        let ?p = "take bw (drop i packet)"
        from q have ibn: "i + bw \<le> n" by (simp add: Q_def)
        have "take (n - i) (drop i packet)
            = take bw (drop i packet) @ take (n - i - bw) (drop bw (drop i packet))"
          using ibn take_add [of bw "n - i - bw" "drop i packet"] by simp
        also have "drop bw (drop i packet) = drop (i + bw) packet"
          by (simp add: add.commute)
        finally have cc: "take (n - i) (drop i packet)
            = ?p @ take (n - (i + bw)) (drop (i + bw) packet)"
          by simp
        have sq: "compressionSequence mc + 1 + of_nat (length pieces)
            = compressionSequence mc + of_nat (length (?p # pieces))"
          by simp
        from q ff st cc have "Q mc i (?p # pieces) (cbuffer pc1 # frames) k"
          unfolding Q_def sq [symmetric] by simp
        then show ?thesis by blast
      qed
    qed
  qed
  then show ?case
    unfolding Q_def by simp
qed


lemma framesFit_nth:
  "framesFit zw seq ps fs \<Longrightarrow>
     length fs = length ps
     \<and> (\<forall>j<length ps. fittingFrame zw (seq + of_nat j) (ps ! j) (fs ! j))"
proof (induction zw seq ps fs rule: framesFit.induct)
  case (2 zw seq p ps f fs)
  then have l: "length fs = length ps"
    and r: "\<And>j. j < length ps \<Longrightarrow> fittingFrame zw (seq + 1 + of_nat j) (ps ! j) (fs ! j)"
    and h: "fittingFrame zw seq p f"
    by simp_all
  have "fittingFrame zw (seq + of_nat j) ((p # ps) ! j) ((f # fs) ! j)"
    if "j < length (p # ps)" for j
  proof (cases j)
    case 0
    with h show ?thesis by simp
  next
    case (Suc j')
    with that r [of j'] show ?thesis
      by (simp add: add.assoc)
  qed
  with l show ?case by simp
qed simp_all

lemma pc_writePacket_over_cap:
  "pc_writePacket (\<lambda>x. ([9], None)) (compressor newTransceiver)
      (newConn\<lparr>netConn := idleConn\<lparr>responses := [WriteAll, WriteAll]\<rparr>\<rparr>)
      (replicate 16777219 0)
   = Some ((16777219, None),
       \<lparr>cbuffer = [1, 0, 0, 1, 4, 0, 0, 9], compressorSet = True\<rparr>,
       newConn\<lparr>netConn := idleConn\<lparr>responses := [],
                   sent := (header7 16777215 0 0 @ replicate 16777215 0)
                             @ [1, 0, 0, 1, 4, 0, 0, 9]\<rparr>,
               compressionSequence := 2\<rparr>)"
  by (simp add: pc_writePacket_def pc_writePacket_loop.simps writeToBuffer_True
      writeToBuffer_False header7_small minCompressSize_def maxPacketSize_def
      setWriteDeadline_def sendToNetwork_WriteAll newConn_def idleConn_def newTransceiver_def)

text \<open>
  C4. Whatever chunk \<open>writePacket\<close> of the compressor is called with, and however the
  call ends, the bytes it has transmitted are whole frames, one for each piece of the
  chunk in order, followed when the call fails by the part of one more frame that the
  transport accepted. The pieces together are the first \<open>n\<close> bytes of the chunk, \<open>n\<close>
  being the count returned, which is the length of the chunk when no error is returned.
  Every piece has between 1 and \<open>maxPacketSize\<close> bytes, and in every frame, also in the
  one left in the buffer when the call fails, both 24-bit fields hold the numbers given
  to them, untruncated and at most \<open>maxPacketSize\<close>: the payload length on every path,
  and the length of the piece as uncompressed length on the compressed path.
\<close>

theorem frame_fields_fit:
  assumes "pc_writePacket zw pc mc packet = Some ((n, err), pc', mc')"
  shows "\<exists>pieces frames k.
      length frames = length pieces
      \<and> (\<forall>j<length pieces.
            fittingFrame zw (compressionSequence mc + of_nat j) (pieces ! j) (frames ! j))
      \<and> concat pieces = take n packet \<and> n \<le> length packet
      \<and> sent (netConn mc') = sent (netConn mc) @ concat frames @ take k (cbuffer pc')
      \<and> (err = None \<longrightarrow> k = 0 \<and> n = length packet)
      \<and> (err \<noteq> None \<longrightarrow>
           (\<exists>m. fittingFrame zw (compressionSequence mc + of_nat (length pieces))
                  (take m (drop n packet)) (cbuffer pc')))"
proof (cases "length packet = 0")
  case True
  with assms have "n = 0" "err = None" "mc' = mc"
    by (simp_all add: pc_writePacket_def)
  with True show ?thesis
    by (intro exI [of _ "[]"] exI [of _ 0]) simp
next
  case False
  with assms have "pc_writePacket_loop zw pc mc packet 0 = Some ((n, err), pc', mc')"
    by (simp add: pc_writePacket_def)
  from pc_writePacket_loop_frames [OF this]
  have "\<exists>pieces frames k.
      framesFit zw (compressionSequence mc) pieces frames
      \<and> n \<le> length packet \<and> concat pieces = take n packet
      \<and> sent (netConn mc') = sent (netConn mc) @ concat frames @ take k (cbuffer pc')
      \<and> (err = None \<longrightarrow> k = 0 \<and> n = length packet)
      \<and> (err \<noteq> None \<longrightarrow>
           (\<exists>m. fittingFrame zw (compressionSequence mc + of_nat (length pieces))
                  (take m (drop n packet)) (cbuffer pc')))"
    by simp
  then obtain pieces frames k where
    f: "framesFit zw (compressionSequence mc) pieces frames"
    and r: "n \<le> length packet \<and> concat pieces = take n packet
      \<and> sent (netConn mc') = sent (netConn mc) @ concat frames @ take k (cbuffer pc')
      \<and> (err = None \<longrightarrow> k = 0 \<and> n = length packet)
      \<and> (err \<noteq> None \<longrightarrow>
           (\<exists>m. fittingFrame zw (compressionSequence mc + of_nat (length pieces))
                  (take m (drop n packet)) (cbuffer pc')))"
    by (elim exE conjE) (rule that, assumption, intro conjI, assumption+)
  from framesFit_nth [OF f] r show ?thesis
    by (intro exI [of _ pieces] exI [of _ frames] exI [of _ k]) simp
qed

text \<open>
  The example is a chunk of \<open>maxPacketSize + 4\<close> bytes: the first piece is cut at
  \<open>maxPacketSize\<close> and sent literally, the remaining four bytes are sent compressed.
\<close>

theorem frame_fields_fit_witness:
  "\<exists>pieces frames.
      length frames = length pieces
      \<and> fittingFrame (\<lambda>x. ([9], None)) 0 (pieces ! 0) (frames ! 0)
      \<and> concat pieces = replicate 16777219 0
      \<and> header7 16777215 0 0 @ replicate 16777215 0 @ [1, 0, 0, 1, 4, 0, 0, 9]
          = concat frames"
proof -
  from frame_fields_fit [OF pc_writePacket_over_cap]
  obtain pieces frames where
    l: "length frames = length pieces"
    and f: "\<forall>j<length pieces.
            fittingFrame (\<lambda>x. ([9], None)) (0 + of_nat j) (pieces ! j) (frames ! j)"
    and c: "concat pieces = replicate 16777219 0"
    and s: "header7 16777215 0 0 @ replicate 16777215 0 @ [1, 0, 0, 1, 4, 0, 0, 9]
          = concat frames"
    by (auto simp: newConn_def idleConn_def)
  from c have "pieces \<noteq> []" by auto
  then have "0 < length pieces" by simp
  with f have "fittingFrame (\<lambda>x. ([9], None)) (0 + of_nat 0) (pieces ! 0) (frames ! 0)"
    by blast
  then have "fittingFrame (\<lambda>x. ([9], None)) 0 (pieces ! 0) (frames ! 0)"
    by simp
  with l c s show ?thesis by blast
qed




text \<open>
  C2 fails on the code. \<open>writePacket\<close> of the compressor passes
  \<open>remain < minCompressSize\<close> for the parameter \<open>compress\<close> of \<open>writeToBuffer\<close>, so it is
  the pieces below 100 bytes that are compressed and the others that are sent literally.
  With a codec that maps its input to 12 bytes, a piece of 99 bytes goes out as a
  compressed frame (uncompressed length 99), and a piece of 100 bytes goes out literally
  without the codec being tried. A compressed form as long as the piece is transmitted
  too (3 bytes for 3 bytes), since only a longer one is discarded.
\<close>

theorem small_piece_compressed:
  "pc_writePacket (\<lambda>x. (replicate 12 1, None)) (compressor newTransceiver)
      (newConn\<lparr>netConn := idleConn\<lparr>responses := [WriteAll]\<rparr>\<rparr>) (replicate 99 0)
   = Some ((99, None),
       \<lparr>cbuffer = [12, 0, 0, 0, 99, 0, 0] @ replicate 12 1, compressorSet = True\<rparr>,
       newConn\<lparr>netConn := idleConn\<lparr>responses := [],
                             sent := [12, 0, 0, 0, 99, 0, 0] @ replicate 12 1\<rparr>,
               compressionSequence := 1\<rparr>)
   \<and> uncompressedLength [12, 0, 0, 0, 99, 0, 0] = 99
   \<and> pc_writePacket (\<lambda>x. (replicate 12 1, None)) (compressor newTransceiver)
      (newConn\<lparr>netConn := idleConn\<lparr>responses := [WriteAll]\<rparr>\<rparr>) (replicate 100 0)
   = Some ((100, None),
       \<lparr>cbuffer = [100, 0, 0, 0, 0, 0, 0] @ replicate 100 0, compressorSet = False\<rparr>,
       newConn\<lparr>netConn := idleConn\<lparr>responses := [],
                             sent := [100, 0, 0, 0, 0, 0, 0] @ replicate 100 0\<rparr>,
               compressionSequence := 1\<rparr>)
   \<and> pc_writePacket (\<lambda>x. ([7, 8, 9], None)) (compressor newTransceiver)
      (newConn\<lparr>netConn := idleConn\<lparr>responses := [WriteAll]\<rparr>\<rparr>) [1, 2, 3]
   = Some ((3, None),
       \<lparr>cbuffer = [3, 0, 0, 0, 3, 0, 0, 7, 8, 9], compressorSet = True\<rparr>,
       newConn\<lparr>netConn := idleConn\<lparr>responses := [],
                             sent := [3, 0, 0, 0, 3, 0, 0, 7, 8, 9]\<rparr>,
               compressionSequence := 1\<rparr>)"
  by (simp add: pc_writePacket_def pc_writePacket_loop.simps writeToBuffer_True
      writeToBuffer_False header7_small minCompressSize_def maxPacketSize_def
      setWriteDeadline_def sendToNetwork_WriteAll newConn_def idleConn_def newTransceiver_def
      uncompressedLength_def le24_eq)


subsection \<open>Failed writes of the transceiver\<close>

lemma length_putHeader [simp]: "length (putHeader data pktLen seq) = length data"
  by (simp add: putHeader_def Let_def)

lemma frameSize_full: "int maxPacketSize \<le> pktLen \<Longrightarrow> frameSize pktLen = int maxPacketSize"
  by (simp add: frameSize_def)

lemma frameSize_last: "pktLen < int maxPacketSize \<Longrightarrow> frameSize pktLen = pktLen"
  by (simp add: frameSize_def)

lemma frameSize_bounds: "0 \<le> pktLen \<Longrightarrow> 0 \<le> frameSize pktLen \<and> frameSize pktLen \<le> pktLen"
  by (simp add: frameSize_def)

lemma sendToNetwork_fails_at_once:
  "responses conn = WriteSome 0 (Some k) # rs \<Longrightarrow> data \<noteq> [] \<Longrightarrow>
   sendToNetwork conn data = Some ((0, Some (NetError k)), conn\<lparr>responses := rs, sent := sent conn\<rparr>)"
  by (auto simp: sendToNetwork_def sendLoop_Cons)

lemma writePacket_second_frame_fails:
  assumes big: "4 + maxPacketSize \<le> length data"
    and allowed: "int (length data) - 4 \<le> maxAllowedPacket mc"
    and fresh: "\<not> reset mc" and dl: "setWriteDeadline mc = None" and nc: "canceled mc = None"
    and rs: "responses (netConn mc) = [WriteAll, WriteSome 0 (Some k)]"
  shows "writePacket zw pb mc data False =
     Some (Some errBadConnNoWrite, pb,
       mc\<lparr>netConn := (netConn mc)\<lparr>responses := [],
                sent := sent (netConn mc)
                  @ take (4 + maxPacketSize)
                      (putHeader data (int (length data) - 4) (sequence mc))\<rparr>,
          sequence := sequence mc + 1\<rparr>)"
proof -
  let ?pktLen = "int (length data) - 4"
  let ?data' = "putHeader data ?pktLen (sequence mc)"
  let ?frame = "take (4 + maxPacketSize) ?data'"
  let ?conn1 = "(netConn mc)\<lparr>responses := [WriteSome 0 (Some k)], sent := sent (netConn mc) @ ?frame\<rparr>"
  let ?mc1 = "mc\<lparr>netConn := ?conn1\<rparr>"
  let ?mc2 = "?mc1\<lparr>sequence := sequence ?mc1 + 1\<rparr>"
  let ?data2 = "drop maxPacketSize ?data'"
  let ?pktLen2 = "?pktLen - int maxPacketSize"
  have full: "int maxPacketSize \<le> ?pktLen" using big by simp
  have flen: "length ?frame = 4 + maxPacketSize" using big by simp
  then have "0 < length ?frame" by simp
  then have fne: "?frame \<noteq> []" by (rule length_greater_0_conv [THEN iffD1])
  have s1: "sendFrame zw pb mc ?frame False = Some (Inr ((4 + maxPacketSize, None), pb, ?mc1))"
    using dl rs fne flen by (simp add: sendFrame_def sendToNetwork_WriteAll)
  have step1: "writePacket_loop zw pb mc data ?pktLen False
      = writePacket_loop zw pb ?mc2 ?data2 ?pktLen2 False"
    using big full s1
    by (subst writePacket_loop.simps) (simp add: frameSize_full nat_add_distrib Let_def)
  let ?size2 = "frameSize ?pktLen2"
  let ?data2' = "putHeader ?data2 ?pktLen2 (sequence ?mc2)"
  let ?frame2 = "take (nat (4 + ?size2)) ?data2'"
  have p2: "0 \<le> ?pktLen2" using full by simp
  note fb = frameSize_bounds [OF p2]
  have l2: "int (length ?data2) - 4 = ?pktLen2" using big by simp
  have "0 < length ?frame2" using fb big by simp
  then have f2ne: "?frame2 \<noteq> []" by (rule length_greater_0_conv [THEN iffD1])
  have dl2: "setWriteDeadline ?mc2 = None" using dl by (auto simp: setWriteDeadline_def split: if_splits)
  have s2: "sendFrame zw pb ?mc2 ?frame2 False
      = Some (Inr ((0, Some (NetError k)), pb,
          ?mc2\<lparr>netConn := ?conn1\<lparr>responses := [], sent := sent ?conn1\<rparr>\<rparr>))"
    using dl2 f2ne by (simp add: sendFrame_def sendToNetwork_fails_at_once)
  have step2: "writePacket_loop zw pb ?mc2 ?data2 ?pktLen2 False
      = Some (Some errBadConnNoWrite, pb,
          ?mc2\<lparr>netConn := ?conn1\<lparr>responses := [], sent := sent ?conn1\<rparr>\<rparr>)"
  proof -
    have a: "\<not> length ?data2 < 4" using big by simp
    have b: "\<not> (4 + ?size2 < 0 \<or> int (length ?data2') < 4 + ?size2)"
      using fb l2 by simp
    have c: "writeFailed (?mc2\<lparr>netConn := ?conn1\<lparr>responses := [], sent := sent ?conn1\<rparr>\<rparr>) 0
        (Some (NetError k)) ?pktLen2 (length ?data2')
        = (errBadConnNoWrite, ?mc2\<lparr>netConn := ?conn1\<lparr>responses := [], sent := sent ?conn1\<rparr>\<rparr>)"
      using nc l2 by (simp add: writeFailed_def)
    show ?thesis
      apply (subst writePacket_loop.simps)
      apply (simp only: a b if_False Let_def s2 option.case sum.case prod.case c)
      apply simp
      done
  qed
  have "writePacket zw pb mc data False = writePacket_loop zw pb mc data ?pktLen False"
    using allowed fresh by (simp add: writePacket_def staleCheck_fresh)
  with step1 step2 show ?thesis by simp
qed


text \<open>
  C9 fails on the code. The test \<open>pktLen == len(data)-4\<close> that is meant to single out
  the first iteration holds in every iteration, because both sides shrink by \<open>size\<close>
  together. A packet of \<open>maxPacketSize + 1\<close> payload bytes is written with compression
  off; the transport accepts the first frame and fails the second write with no byte
  accepted: \<open>writePacket\<close> returns \<open>errBadConnNoWrite\<close>, with 16777219 bytes already
  transmitted and the connection left open. With compression on, \<open>n\<close> is the number of
  chunk bytes the compressor has finished, not the number of bytes sent: a first
  compressed frame that fails after three bytes were accepted gives \<open>errBadConnNoWrite\<close>
  as well.
\<close>

theorem retryable_error_after_transmission:
  "(\<exists>pb' mc'.
      writePacket (\<lambda>x. ([], None)) newTransceiver
        (newConn\<lparr>maxAllowedPacket := 16777216,
                 netConn := idleConn\<lparr>responses := [WriteAll, WriteSome 0 (Some 32)]\<rparr>\<rparr>)
        (replicate 16777220 0) False
      = Some (Some errBadConnNoWrite, pb', mc')
      \<and> length (sent (netConn mc')) = 16777219 \<and> \<not> isClosed mc')
   \<and> writePacket (\<lambda>x. (replicate 20 0, None)) newTransceiver
        (newConn\<lparr>netConn := idleConn\<lparr>responses := [WriteSome 3 (Some 32)]\<rparr>\<rparr>)
        [0, 0, 0, 0, 1, 2, 3] True
      = Some (Some errBadConnNoWrite,
          newTransceiver\<lparr>compressor :=
            \<lparr>cbuffer = [7, 0, 0, 0, 0, 0, 0, 3, 0, 0, 0, 1, 2, 3], compressorSet = True\<rparr>\<rparr>,
          newConn\<lparr>netConn := idleConn\<lparr>responses := [], sent := [7, 0, 0]\<rparr>\<rparr>)"
proof (rule conjI)
  let ?mc = "newConn\<lparr>maxAllowedPacket := 16777216,
                 netConn := idleConn\<lparr>responses := [WriteAll, WriteSome 0 (Some 32)]\<rparr>\<rparr>"
  have "writePacket (\<lambda>x. ([], None)) newTransceiver ?mc (replicate 16777220 0) False =
     Some (Some errBadConnNoWrite, newTransceiver,
       ?mc\<lparr>netConn := (netConn ?mc)\<lparr>responses := [],
                sent := sent (netConn ?mc)
                  @ take (4 + maxPacketSize)
                      (putHeader (replicate 16777220 0)
                         (int (length (replicate 16777220 (0::byte))) - 4) (sequence ?mc))\<rparr>,
          sequence := sequence ?mc + 1\<rparr>)"
    by (rule writePacket_second_frame_fails)
      (simp_all add: maxPacketSize_def newConn_def idleConn_def setWriteDeadline_def)
  then show "\<exists>pb' mc'.
      writePacket (\<lambda>x. ([], None)) newTransceiver ?mc (replicate 16777220 0) False
      = Some (Some errBadConnNoWrite, pb', mc')
      \<and> length (sent (netConn mc')) = 16777219 \<and> \<not> isClosed mc'"
    by (simp add: maxPacketSize_def newConn_def idleConn_def)
next
  show "writePacket (\<lambda>x. (replicate 20 0, None)) newTransceiver
        (newConn\<lparr>netConn := idleConn\<lparr>responses := [WriteSome 3 (Some 32)]\<rparr>\<rparr>)
        [0, 0, 0, 0, 1, 2, 3] True
      = Some (Some errBadConnNoWrite,
          newTransceiver\<lparr>compressor :=
            \<lparr>cbuffer = [7, 0, 0, 0, 0, 0, 0, 3, 0, 0, 0, 1, 2, 3], compressorSet = True\<rparr>\<rparr>,
          newConn\<lparr>netConn := idleConn\<lparr>responses := [], sent := [7, 0, 0]\<rparr>\<rparr>)"
    by (simp add: writePacket_def staleCheck_def writePacket_loop.simps frameSize_def
        putHeader_def sendFrame_def pc_writePacket_def pc_writePacket_loop.simps
        writeToBuffer_True writeToBuffer_False header7_small minCompressSize_def
        maxPacketSize_def setWriteDeadline_def sendToNetwork_def sendLoop_Cons sendLoop_Nil
        sendLoop_done writeFailed_def newConn_def idleConn_def newTransceiver_def Let_def)
qed


subsection \<open>Splitting and reassembly\<close>

text \<open>
  The frames that the specification describes for a payload \<open>p\<close> written with first
  sequence number \<open>seq\<close>, for comparison with what the code writes: \<open>k\<close> frames of
  \<open>maxPacketSize\<close> payload bytes each, \<open>k\<close> being the number of times \<open>maxPacketSize\<close>
  goes into the length of \<open>p\<close>, and then one frame with the remaining bytes, which are
  none when the length is a multiple of \<open>maxPacketSize\<close>. A frame is the payload length
  in three bytes, little endian, the sequence number, and the payload.
\<close>

definition plainFrame :: "byte \<Rightarrow> byte list \<Rightarrow> byte list" where
  "plainFrame seq body =
     [of_nat (length body), of_nat (drop_bit 8 (length body)),
      of_nat (drop_bit 16 (length body)), seq] @ body"

definition specFrames :: "byte \<Rightarrow> byte list \<Rightarrow> byte list list" where
  "specFrames seq p =
     (let k = length p div maxPacketSize
      in map (\<lambda>j. plainFrame (seq + of_nat j) (take maxPacketSize (drop (j * maxPacketSize) p)))
           [0..<k]
         @ [plainFrame (seq + of_nat k) (drop (k * maxPacketSize) p)])"

text \<open>The bytes accumulated so far by \<open>readPacket\<close>, and the number of calls of
  \<open>conn.Write\<close> that the compressor makes for a chunk of \<open>n\<close> bytes.\<close>

definition prevBytes :: "byte list option \<Rightarrow> byte list" where
  "prevBytes prev = (case prev of None \<Rightarrow> [] | Some q \<Rightarrow> q)"

definition writesNeeded :: "nat \<Rightarrow> nat" where
  "writesNeeded n = (n + maxPacketSize - 1) div maxPacketSize"

lemma specFrames_short:
  "length p < maxPacketSize \<Longrightarrow> specFrames seq p = [plainFrame seq p]"
  by (simp add: specFrames_def)

lemma specFrames_long:
  assumes "maxPacketSize \<le> length p"
  shows "specFrames seq p = plainFrame seq (take maxPacketSize p) # specFrames (seq + 1) (drop maxPacketSize p)"
proof -
  let ?m = maxPacketSize
  have m: "0 < ?m" by (simp add: maxPacketSize_def)
  obtain k' where k': "(length p - ?m) div ?m = k'" by simp
  have k: "length p div ?m = Suc k'"
    using assms m k' by (simp add: le_div_geq)
  have up: "[0..<Suc k'] = 0 # map Suc [0..<k']"
    by (simp add: upt_conv_Cons map_Suc_upt del: upt_Suc)
  have dr: "\<And>j. drop (Suc j * ?m) p = drop (j * ?m) (drop ?m p)"
    by (simp add: add.commute)
  have sq: "\<And>j. seq + of_nat (Suc j) = seq + 1 + of_nat j"
    by simp
  show ?thesis
    unfolding specFrames_def Let_def k length_drop k' up
    by (simp add: sq comp_def add.commute del: of_nat_Suc)
qed


lemma plainFrame_take:
  "take 4 (plainFrame seq body @ rest) =
     [of_nat (length body), of_nat (drop_bit 8 (length body)),
      of_nat (drop_bit 16 (length body)), seq]"
  by (simp add: plainFrame_def)

lemma plainFrame_drop: "drop 4 (plainFrame seq body @ rest) = body @ rest"
  by (simp add: plainFrame_def)

lemma length_plainFrame [simp]: "length (plainFrame seq body) = 4 + length body"
  by (simp add: plainFrame_def)

lemma go_append_nonempty: "body \<noteq> [] \<Longrightarrow> go_append prev body = Some (prevBytes prev @ body)"
  by (simp add: go_append_def prevBytes_def split: option.splits)

lemma readPacket_loop_stream:
  fixes I :: "packetTransceiver \<Rightarrow> mysqlConn \<Rightarrow> byte list \<Rightarrow> bool"
  assumes step: "\<And>pb mc s n. I pb mc s \<Longrightarrow> 0 < n \<Longrightarrow> n \<le> length s \<Longrightarrow>
      \<exists>pb' mc'. readBytes zr pb mc compr n = (Inr (take n s), pb', mc') \<and> I pb' mc' (drop n s)"
    and upd: "\<And>pb mc s q. I pb mc s \<Longrightarrow> I pb (mc\<lparr>sequence := q\<rparr>) s"
  shows "I pb mc (concat (specFrames (sequence mc) p) @ rest) \<Longrightarrow> prev = None \<longrightarrow> p \<noteq> [] \<Longrightarrow>
     \<exists>pb' mc'. readPacket_loop zr pb mc compr prev = (Inr (prevBytes prev @ p), pb', mc')
        \<and> I pb' mc' rest
        \<and> sequence mc' = sequence mc + of_nat (length p div maxPacketSize + 1)"
proof (induction "length p" arbitrary: p pb mc prev rule: less_induct)
  case less
  let ?m = maxPacketSize
  let ?seq = "sequence mc"
  show ?case
  proof (cases "?m \<le> length p")
    case False
    then have short: "length p < ?m" by simp
    let ?s = "plainFrame ?seq p @ rest"
    let ?hdr = "take 4 ?s"
    from less.prems(1) short have inv: "I pb mc ?s"
      by (simp add: specFrames_short)
    from step [OF inv, of 4] obtain pb1 mc1 where
      r1: "readBytes zr pb mc compr 4 = (Inr ?hdr, pb1, mc1)" and i1: "I pb1 mc1 (drop 4 ?s)"
      by auto
    have s1: "sequence mc1 = ?seq" by (rule readBytes_sequence [OF r1])
    have h3: "?hdr ! 3 = ?seq"
      unfolding plainFrame_take by simp
    have hl: "le24 (?hdr ! 0) (?hdr ! 1) (?hdr ! 2) = length p"
      unfolding plainFrame_take using short by (simp add: le24_encode maxPacketSize_def)
    let ?mc2 = "mc1\<lparr>sequence := sequence mc1 + 1\<rparr>"
    from i1 have i1': "I pb1 mc1 (p @ rest)"
      unfolding plainFrame_drop .
    have i2: "I pb1 ?mc2 (p @ rest)"
      by (rule upd [OF i1'])
    have k: "length p div ?m = 0" using short by simp
    show ?thesis
    proof (cases "p = []")
      case True
      with less.prems(2) obtain q where q: "prev = Some q" by auto
      have "readPacket_loop zr pb mc compr prev = (Inr q, pb1, ?mc2)"
        using r1 h3 hl s1 True q by (simp add: readPacket_loop.simps [of zr pb mc compr])
      with i2 True q s1 k show ?thesis
        by (simp add: prevBytes_def)
    next
      case False
      then have pos: "0 < length p" by simp
      from step [OF i2 pos] obtain pb2 mc3 where
        r2: "readBytes zr pb1 ?mc2 compr (length p) = (Inr p, pb2, mc3)" and i3: "I pb2 mc3 rest"
        by auto
      have s3: "sequence mc3 = ?seq + 1"
        using readBytes_sequence [OF r2] s1 by simp
      have "readPacket_loop zr pb mc compr prev = (Inr (prevBytes prev @ p), pb2, mc3)"
        using r1 h3 hl s1 False r2 short
        by (simp add: readPacket_loop.simps [of zr pb mc compr] prevBytes_def
            split: option.splits)
      with i3 s3 k show ?thesis by simp
    qed
  next
    case True
    let ?b = "take ?m p"
    let ?p' = "drop ?m p"
    let ?s = "plainFrame ?seq ?b @ concat (specFrames (?seq + 1) ?p') @ rest"
    let ?hdr = "take 4 ?s"
    have lb: "length ?b = ?m" using True by simp
    from less.prems(1) True have inv: "I pb mc ?s"
      by (simp add: specFrames_long)
    from step [OF inv, of 4] obtain pb1 mc1 where
      r1: "readBytes zr pb mc compr 4 = (Inr ?hdr, pb1, mc1)" and i1: "I pb1 mc1 (drop 4 ?s)"
      by auto
    have s1: "sequence mc1 = ?seq" by (rule readBytes_sequence [OF r1])
    have h3: "?hdr ! 3 = ?seq"
      unfolding plainFrame_take by simp
    have enc: "le24 (of_nat ?m) (of_nat (drop_bit 8 ?m)) (of_nat (drop_bit 16 ?m)) = ?m"
      by (rule le24_encode) (simp add: maxPacketSize_def)
    have hl: "le24 (?hdr ! 0) (?hdr ! 1) (?hdr ! 2) = ?m"
      unfolding plainFrame_take using lb enc by simp
    let ?mc2 = "mc1\<lparr>sequence := sequence mc1 + 1\<rparr>"
    let ?s2 = "?b @ concat (specFrames (?seq + 1) ?p') @ rest"
    from i1 have i1': "I pb1 mc1 ?s2"
      unfolding plainFrame_drop .
    have i2: "I pb1 ?mc2 ?s2"
      by (rule upd [OF i1'])
    have mpos: "0 < ?m" by (simp add: maxPacketSize_def)
    have mle: "?m \<le> length ?s2" using lb by simp
    from step [OF i2 mpos mle] lb obtain pb2 mc3 where
      r2: "readBytes zr pb1 ?mc2 compr ?m = (Inr ?b, pb2, mc3)"
      and i3: "I pb2 mc3 (concat (specFrames (?seq + 1) ?p') @ rest)"
      by auto
    have s3: "sequence mc3 = ?seq + 1"
      using readBytes_sequence [OF r2] s1 by simp
    have bne: "?b \<noteq> []" using lb mpos by auto
    have loop: "readPacket_loop zr pb mc compr prev
        = readPacket_loop zr pb2 mc3 compr (Some (prevBytes prev @ ?b))"
      using r1 h3 hl s1 r2 go_append_nonempty [OF bne, of prev] mpos
      by (simp add: readPacket_loop.simps [of zr pb mc compr])
    have shorter: "length ?p' < length p" using True mpos by simp
    from less.hyps [OF shorter, of pb2 mc3 "Some (prevBytes prev @ ?b)"] i3 s3
    obtain pb' mc' where
      res: "readPacket_loop zr pb2 mc3 compr (Some (prevBytes prev @ ?b))
          = (Inr (prevBytes (Some (prevBytes prev @ ?b)) @ ?p'), pb', mc')"
      and i': "I pb' mc' rest"
      and s': "sequence mc' = sequence mc3 + of_nat (length ?p' div ?m + 1)"
      by auto
    have kk: "length p div ?m = Suc ((length p - ?m) div ?m)"
      using True mpos by (simp add: le_div_geq)
    from loop res i' s' s3 kk show ?thesis
      by (simp add: prevBytes_def)
  qed
qed


lemma data_header_slot:
  assumes "length data = 4 + length p" and "drop 4 data = p"
  shows "\<exists>a b c d. data = a # b # c # d # p"
proof -
  from assms(1) obtain a b c d r where "data = a # b # c # d # r"
    by (cases data; simp; cases "tl data"; simp; cases "tl (tl data)"; simp;
        cases "tl (tl (tl data))"; simp)
  with assms(2) show ?thesis by simp
qed

lemma putHeader_short:
  assumes "length data = 4 + length p" and "drop 4 data = p" and "length p < maxPacketSize"
  shows "putHeader data (int (length p)) seq = plainFrame seq p"
proof -
  from data_header_slot [OF assms(1,2)] obtain a b c d where d: "data = a # b # c # d # p"
    by auto
  have "drop_bit 8 (int (length p)) = int (drop_bit 8 (length p))"
    "drop_bit 16 (int (length p)) = int (drop_bit 16 (length p))"
    by (simp_all add: drop_bit_of_nat)
  with assms(3) show ?thesis
    by (subst d) (simp add: putHeader_def plainFrame_def)
qed

lemma full_header_bytes:
  "(of_nat maxPacketSize :: byte) = 0xff" "(of_nat (drop_bit 8 maxPacketSize) :: byte) = 0xff"
  "(of_nat (drop_bit 16 maxPacketSize) :: byte) = 0xff"
  by (simp_all add: maxPacketSize_def drop_bit_eq_div)

lemma take4_Cons: "take (4 + n) (a # b # c # d # xs) = a # b # c # d # take n xs"
  by (simp add: numeral_eq_Suc)

lemma drop4_Cons: "drop 4 (a # b # c # d # xs) = xs"
  by simp

lemma putHeader_long:
  assumes "length data = 4 + length p" and "drop 4 data = p" and "maxPacketSize \<le> length p"
  shows "take (4 + maxPacketSize) (putHeader data (int (length p)) seq)
           = plainFrame seq (take maxPacketSize p)"
    and "drop 4 (drop maxPacketSize (putHeader data (int (length p)) seq)) = drop maxPacketSize p"
    and "length (drop maxPacketSize (putHeader data (int (length p)) seq))
           = 4 + length (drop maxPacketSize p)"
proof -
  from data_header_slot [OF assms(1,2)] obtain a b c d where d: "data = a # b # c # d # p"
    by auto
  have ph: "putHeader data (int (length p)) seq = 0xff # 0xff # 0xff # seq # p"
    using assms(3) by (subst d) (simp add: putHeader_def)
  have lt: "length (take maxPacketSize p) = maxPacketSize"
    using assms(3) by simp
  show "take (4 + maxPacketSize) (putHeader data (int (length p)) seq)
           = plainFrame seq (take maxPacketSize p)"
    unfolding ph plainFrame_def lt full_header_bytes by (simp add: take4_Cons)
  have "drop 4 (drop maxPacketSize (0xff # 0xff # 0xff # seq # p))
      = drop maxPacketSize (drop 4 (0xff # 0xff # 0xff # seq # p))"
    by (simp only: drop_drop add.commute)
  then show "drop 4 (drop maxPacketSize (putHeader data (int (length p)) seq)) = drop maxPacketSize p"
    unfolding ph by (simp only: drop4_Cons)
  show "length (drop maxPacketSize (putHeader data (int (length p)) seq))
           = 4 + length (drop maxPacketSize p)"
    unfolding ph using assms(3) by simp
qed

lemma writePacket_loop_last:
  assumes len: "length data = 4 + length p" and dr: "drop 4 data = p"
    and short: "length p < maxPacketSize"
    and sf: "sendFrame zw pb mc (plainFrame (sequence mc) p) compr
          = Some (Inr ((4 + length p, None), pb1, mc1))"
  shows "writePacket_loop zw pb mc data (int (length p)) compr
        = Some (None, pb1, mc1\<lparr>sequence := sequence mc1 + 1\<rparr>)"
proof -
  let ?data' = "putHeader data (int (length p)) (sequence mc)"
  have d4: "\<not> length data < 4" using len by simp
  have fs: "frameSize (int (length p)) = int (length p)"
    using short by (simp add: frameSize_def)
  have ph: "?data' = plainFrame (sequence mc) p"
    by (rule putHeader_short [OF len dr short])
  have n4: "nat (4 + int (length p)) = 4 + length p"
    by (simp add: nat_add_distrib)
  have fr: "take (nat (4 + int (length p))) ?data' = plainFrame (sequence mc) p"
    unfolding ph n4 by simp
  have ok: "\<not> (4 + int (length p) < 0 \<or> 4 + int (length p) > int (length ?data'))"
    unfolding ph by simp
  have ne: "int (length p) \<noteq> int maxPacketSize" using short by simp
  have nn: "int (4 + length p) = 4 + int (length p)" by simp
  show ?thesis
    apply (subst writePacket_loop.simps)
    apply (simp only: d4 if_False Let_def fs ok fr sf option.case sum.case prod.case
        simp_thms nn if_True ne)
    done
qed


lemma writePacket_loop_more:
  assumes len: "length data = 4 + length p" and dr: "drop 4 data = p"
    and long: "maxPacketSize \<le> length p"
    and sf: "sendFrame zw pb mc (plainFrame (sequence mc) (take maxPacketSize p)) compr
          = Some (Inr ((4 + maxPacketSize, None), pb1, mc1))"
  shows "writePacket_loop zw pb mc data (int (length p)) compr
        = writePacket_loop zw pb1 (mc1\<lparr>sequence := sequence mc1 + 1\<rparr>)
            (drop maxPacketSize (putHeader data (int (length p)) (sequence mc)))
            (int (length (drop maxPacketSize p))) compr"
proof -
  let ?m = maxPacketSize
  let ?data' = "putHeader data (int (length p)) (sequence mc)"
  have d4: "\<not> length data < 4" using len by simp
  have fs: "frameSize (int (length p)) = int ?m"
    using long by (simp add: frameSize_def)
  note pl = putHeader_long [OF len dr long, of "sequence mc"]
  have n4: "nat (4 + int ?m) = 4 + ?m"
    by (simp add: nat_add_distrib)
  have fr: "take (nat (4 + int ?m)) ?data' = plainFrame (sequence mc) (take ?m p)"
    unfolding n4 by (rule pl(1))
  have ld: "length ?data' = 4 + length p" using len by simp
  have ok: "\<not> (4 + int ?m < 0 \<or> 4 + int ?m > int (length ?data'))"
    unfolding ld using long by simp
  have nn: "int (4 + ?m) = 4 + int ?m" by simp
  have nm: "nat (int ?m) = ?m" by simp
  have pl': "int (length p) - int ?m = int (length (drop ?m p))" using long by simp
  show ?thesis
    apply (subst writePacket_loop.simps)
    apply (simp only: d4 if_False Let_def fs ok fr sf option.case sum.case prod.case
        simp_thms nn if_True nm pl')
    done
qed


lemma writePacket_loop_stream:
  fixes J :: "packetTransceiver \<Rightarrow> mysqlConn \<Rightarrow> byte list \<Rightarrow> nat \<Rightarrow> bool"
  assumes step: "\<And>pb mc t c frame. J pb mc t (Suc c) \<Longrightarrow> 4 \<le> length frame \<Longrightarrow>
      length frame \<le> 4 + maxPacketSize \<Longrightarrow>
      \<exists>pb' mc'. sendFrame zw pb mc frame compr = Some (Inr ((length frame, None), pb', mc'))
         \<and> J pb' mc' (t @ frame) c \<and> sequence mc' = sequence mc"
    and upd: "\<And>pb mc t c q. J pb mc t c \<Longrightarrow> J pb (mc\<lparr>sequence := q\<rparr>) t c"
  shows "J pb mc t (length p div maxPacketSize + 1 + c) \<Longrightarrow> length data = 4 + length p \<Longrightarrow>
     drop 4 data = p \<Longrightarrow>
     \<exists>pb' mc'. writePacket_loop zw pb mc data (int (length p)) compr = Some (None, pb', mc')
        \<and> J pb' mc' (t @ concat (specFrames (sequence mc) p)) c
        \<and> sequence mc' = sequence mc + of_nat (length p div maxPacketSize + 1)"
proof (induction "length p" arbitrary: p pb mc t data rule: less_induct)
  case less
  let ?m = maxPacketSize
  let ?seq = "sequence mc"
  have mpos: "0 < ?m" by (simp add: maxPacketSize_def)
  show ?case
  proof (cases "?m \<le> length p")
    case False
    then have short: "length p < ?m" by simp
    then have k: "length p div ?m = 0" by simp
    from less.prems(1) have j: "J pb mc t (Suc c)"
      unfolding k by simp
    have l1: "4 \<le> length (plainFrame ?seq p)" by simp
    have l2: "length (plainFrame ?seq p) \<le> 4 + ?m" using short by simp
    from step [OF j l1 l2] obtain pb1 mc1 where
      sf: "sendFrame zw pb mc (plainFrame ?seq p) compr
          = Some (Inr ((length (plainFrame ?seq p), None), pb1, mc1))"
      and j1: "J pb1 mc1 (t @ plainFrame ?seq p) c" and s1: "sequence mc1 = ?seq"
      by blast
    from sf have sf': "sendFrame zw pb mc (plainFrame ?seq p) compr
          = Some (Inr ((4 + length p, None), pb1, mc1))"
      by simp
    note w = writePacket_loop_last [OF less.prems(2,3) short sf']
    have sp: "concat (specFrames ?seq p) = plainFrame ?seq p"
      using short by (simp add: specFrames_short)
    have j2: "J pb1 (mc1\<lparr>sequence := sequence mc1 + 1\<rparr>) (t @ concat (specFrames ?seq p)) c"
      unfolding sp by (rule upd [OF j1])
    have s2: "sequence (mc1\<lparr>sequence := sequence mc1 + 1\<rparr>)
        = ?seq + of_nat (length p div ?m + 1)"
      unfolding k using s1 by simp
    from w j2 s2 show ?thesis by blast
  next
    case True
    let ?b = "take ?m p"
    let ?p' = "drop ?m p"
    let ?fr = "plainFrame ?seq ?b"
    let ?k' = "length ?p' div ?m"
    have lb: "length ?b = ?m" using True by simp
    have kk: "length p div ?m = Suc ?k'"
      using True mpos by (simp add: le_div_geq)
    from less.prems(1) have j: "J pb mc t (Suc (?k' + 1 + c))"
      unfolding kk by simp
    have l1: "4 \<le> length ?fr" by simp
    have l2: "length ?fr \<le> 4 + ?m" unfolding length_plainFrame lb by simp
    from step [OF j l1 l2] obtain pb1 mc1 where
      sf: "sendFrame zw pb mc ?fr compr = Some (Inr ((length ?fr, None), pb1, mc1))"
      and j1: "J pb1 mc1 (t @ ?fr) (?k' + 1 + c)" and s1: "sequence mc1 = ?seq"
      by blast
    from sf have sf': "sendFrame zw pb mc ?fr compr = Some (Inr ((4 + ?m, None), pb1, mc1))"
      unfolding length_plainFrame lb .
    let ?mc2 = "mc1\<lparr>sequence := sequence mc1 + 1\<rparr>"
    let ?data2 = "drop ?m (putHeader data (int (length p)) ?seq)"
    note loop = writePacket_loop_more [OF less.prems(2,3) True sf']
    note pl = putHeader_long [OF less.prems(2,3) True, of ?seq]
    have shorter: "length ?p' < length p" using True mpos by simp
    have j2: "J pb1 ?mc2 (t @ ?fr) (?k' + 1 + c)"
      by (rule upd [OF j1])
    from less.hyps [OF shorter j2 pl(3) pl(2)] obtain pb' mc' where
      w: "writePacket_loop zw pb1 ?mc2 ?data2 (int (length ?p')) compr = Some (None, pb', mc')"
      and j': "J pb' mc' ((t @ ?fr) @ concat (specFrames (sequence ?mc2) ?p')) c"
      and s': "sequence mc' = sequence ?mc2 + of_nat (?k' + 1)"
      by blast
    have sq: "sequence ?mc2 = ?seq + 1" using s1 by simp
    have sp: "concat (specFrames ?seq p) = ?fr @ concat (specFrames (?seq + 1) ?p')"
      using True by (simp add: specFrames_long)
    have r1: "writePacket_loop zw pb mc data (int (length p)) compr = Some (None, pb', mc')"
      unfolding loop by (rule w)
    have r2: "J pb' mc' (t @ concat (specFrames ?seq p)) c"
      using j' unfolding sp sq by simp
    have r3: "sequence mc' = ?seq + of_nat (length p div ?m + 1)"
      unfolding s' sq kk by simp
    from r1 r2 r3 show ?thesis by blast
  qed
qed

lemma writeToBuffer_bytes:
  assumes "i < length packet"
    and "writeToBuffer zw pc (drop i packet) seq (length packet - i < minCompressSize) = (r, pc')"
  shows "r = Inr (min (length packet - i) maxPacketSize)"
proof (cases "length packet - i < minCompressSize")
  case False
  with assms(2) show ?thesis
    by (auto simp: writeToBuffer_False)
next
  case True
  then have "min (length packet - i) maxPacketSize = length packet - i"
    by (simp add: minCompressSize_def maxPacketSize_def)
  with assms(2) True show ?thesis
    by (auto simp: writeToBuffer_True writeToBuffer_False Let_def
        split: prod.splits option.splits if_splits)
qed

lemma writesNeeded_0: "writesNeeded 0 = 0"
  by (simp add: writesNeeded_def maxPacketSize_def)

lemma writesNeeded_short: "0 < n \<Longrightarrow> n \<le> maxPacketSize \<Longrightarrow> writesNeeded n = 1"
proof -
  assume a: "0 < n" "n \<le> maxPacketSize"
  let ?m = maxPacketSize
  have "?m \<le> n + ?m - 1" using a by simp
  then have "(n + ?m - 1) div ?m = Suc ((n + ?m - 1 - ?m) div ?m)"
    by (simp add: le_div_geq maxPacketSize_def)
  moreover have "n + ?m - 1 - ?m < ?m" using a by simp
  ultimately show ?thesis
    by (simp add: writesNeeded_def)
qed

lemma writesNeeded_long:
  "maxPacketSize \<le> n \<Longrightarrow> writesNeeded n = Suc (writesNeeded (n - maxPacketSize))"
proof -
  assume a: "maxPacketSize \<le> n"
  let ?m = maxPacketSize
  have "?m \<le> n + ?m - 1" using a by simp
  then have "(n + ?m - 1) div ?m = Suc ((n + ?m - 1 - ?m) div ?m)"
    by (simp add: le_div_geq maxPacketSize_def)
  moreover have "n + ?m - 1 - ?m = n - ?m + ?m - 1" using a by simp
  ultimately show ?thesis
    by (simp add: writesNeeded_def)
qed

lemma writesNeeded_frame: "0 < n \<Longrightarrow> n \<le> 4 + maxPacketSize \<Longrightarrow> writesNeeded n \<le> 2"
proof (cases "maxPacketSize \<le> n")
  case False
  assume "0 < n"
  with False show ?thesis by (simp add: writesNeeded_short)
next
  case True
  assume "n \<le> 4 + maxPacketSize"
  then have le: "n - maxPacketSize \<le> maxPacketSize"
    by (simp add: maxPacketSize_def)
  show ?thesis
  proof (cases "n - maxPacketSize = 0")
    case True
    with writesNeeded_long [OF \<open>maxPacketSize \<le> n\<close>] show ?thesis
      by (simp add: writesNeeded_0)
  next
    case False
    then have "0 < n - maxPacketSize" by simp
    from writesNeeded_short [OF this le] writesNeeded_long [OF True] show ?thesis
      by simp
  qed
qed


lemma writesNeeded_step:
  assumes "0 < r" and "writesNeeded r \<le> N"
  shows "0 < N" and "writesNeeded (r - min r maxPacketSize) \<le> N - 1"
proof -
  have "0 < writesNeeded r \<and> writesNeeded (r - min r maxPacketSize) \<le> writesNeeded r - 1"
  proof (cases "maxPacketSize \<le> r")
    case True
    then have "min r maxPacketSize = maxPacketSize" by simp
    with writesNeeded_long [OF True] show ?thesis by simp
  next
    case False
    then have "min r maxPacketSize = r" "r \<le> maxPacketSize" by simp_all
    with writesNeeded_short [OF assms(1)] show ?thesis
      by (simp add: writesNeeded_0)
  qed
  with assms(2) show "0 < N" and "writesNeeded (r - min r maxPacketSize) \<le> N - 1"
    by arith+
qed

lemma writesNeeded_step_eq:
  assumes "0 < r"
  shows "writesNeeded r = Suc (writesNeeded (r - min r maxPacketSize))"
proof (cases "maxPacketSize \<le> r")
  case True
  then have "min r maxPacketSize = maxPacketSize" by simp
  with writesNeeded_long [OF True] show ?thesis by simp
next
  case False
  then have "min r maxPacketSize = r" "r \<le> maxPacketSize" by simp_all
  with writesNeeded_short [OF assms(1)] show ?thesis
    by (simp add: writesNeeded_0)
qed

lemma pc_writePacket_loop_run:
  "setWriteDeadline mc = None \<Longrightarrow> responses (netConn mc) = replicate N WriteAll \<Longrightarrow>
   writesNeeded (length packet - i) \<le> N \<Longrightarrow> i \<le> length packet \<Longrightarrow>
   \<exists>pc' mc' pieces frames.
      pc_writePacket_loop zw pc mc packet i = Some ((length packet, None), pc', mc')
      \<and> framesFit zw (compressionSequence mc) pieces frames
      \<and> concat pieces = drop i packet
      \<and> sent (netConn mc') = sent (netConn mc) @ concat frames
      \<and> responses (netConn mc') = replicate (N - writesNeeded (length packet - i)) WriteAll
      \<and> compressionSequence mc' = compressionSequence mc + of_nat (length pieces)
      \<and> setWriteDeadline mc' = None \<and> sequence mc' = sequence mc"
proof (induction zw pc mc packet i arbitrary: N rule: pc_writePacket_loop.induct)
  case (1 zw pc mc packet i)
  define Q where "Q = (\<lambda>(mc0::mysqlConn) (i0::nat) (N0::nat) (pc'::packetCompressor)
      (mc'::mysqlConn) (pieces::byte list list) (frames::byte list list).
      framesFit zw (compressionSequence mc0) pieces frames
      \<and> concat pieces = drop i0 packet
      \<and> sent (netConn mc') = sent (netConn mc0) @ concat frames
      \<and> responses (netConn mc') = replicate (N0 - writesNeeded (length packet - i0)) WriteAll
      \<and> compressionSequence mc' = compressionSequence mc0 + of_nat (length pieces)
      \<and> setWriteDeadline mc' = None \<and> sequence mc' = sequence mc0)"
  have "\<exists>pc' mc' pieces frames.
      pc_writePacket_loop zw pc mc packet i = Some ((length packet, None), pc', mc')
      \<and> Q mc i N pc' mc' pieces frames"
  proof (cases "i < length packet")
    case False
    with "1.prems" have e: "i = length packet" by simp
    from False have "pc_writePacket_loop zw pc mc packet i = Some ((length packet, None), pc, mc)"
      by (simp add: pc_writePacket_loop.simps [of zw pc mc packet i])
    moreover have "Q mc i N pc mc [] []"
      using e "1.prems"(1,2) by (simp add: Q_def writesNeeded_0)
    ultimately show ?thesis by blast
  next
    case True
    let ?r = "length packet - i"
    let ?bw = "min ?r maxPacketSize"
    obtain rr pc1 where w0: "writeToBuffer zw pc (drop i packet) (compressionSequence mc)
        (?r < minCompressSize) = (rr, pc1)"
      by (cases "writeToBuffer zw pc (drop i packet) (compressionSequence mc)
        (?r < minCompressSize)") auto
    from writeToBuffer_bytes [OF True w0] have rr: "rr = Inr ?bw" .
    from w0 rr have w: "writeToBuffer zw pc (drop i packet) (compressionSequence mc)
        (?r < minCompressSize) = (Inr ?bw, pc1)"
      by simp
    from writeToBuffer_frame [OF True w]
    have ff: "fittingFrame zw (compressionSequence mc) (take ?bw (drop i packet)) (cbuffer pc1)"
      by simp
    then have "7 \<le> length (cbuffer pc1)"
      by (simp add: fittingFrame_def Let_def)
    then have ne: "cbuffer pc1 \<noteq> []" by auto
    have rpos: "0 < ?r" using True by simp
    note wn = writesNeeded_step [OF rpos "1.prems"(3)]
    from wn(1) "1.prems"(2)
    have rs: "responses (netConn mc) = WriteAll # replicate (N - 1) WriteAll"
      by (cases N) simp_all
    let ?conn' = "(netConn mc)\<lparr>responses := replicate (N - 1) WriteAll,
        sent := sent (netConn mc) @ cbuffer pc1\<rparr>"
    have s: "sendToNetwork (netConn mc) (cbuffer pc1)
        = Some ((length (cbuffer pc1), None), ?conn')"
      using rs ne by (rule sendToNetwork_WriteAll)
    let ?mc2 = "(mc\<lparr>netConn := ?conn'\<rparr>)\<lparr>compressionSequence :=
               compressionSequence (mc\<lparr>netConn := ?conn'\<rparr>) + 1\<rparr>"
    have loop: "pc_writePacket_loop zw pc mc packet i
        = pc_writePacket_loop zw pc1 ?mc2 packet (i + ?bw)"
      using True w "1.prems"(1) s
      by (simp add: pc_writePacket_loop.simps [of zw pc mc packet i])
    have dl2: "setWriteDeadline ?mc2 = None"
      using "1.prems"(1) by (auto simp: setWriteDeadline_def split: if_splits)
    have rs2: "responses (netConn ?mc2) = replicate (N - 1) WriteAll" by simp
    have rem: "length packet - (i + ?bw) = ?r - ?bw" by simp
    have wn2: "writesNeeded (length packet - (i + ?bw)) \<le> N - 1"
      unfolding rem by (rule wn(2))
    have le: "i + ?bw \<le> length packet" using True by simp
    have none: "(None::error option) = None" by simp
    have "\<exists>pc' mc' pieces frames.
      pc_writePacket_loop zw pc1 ?mc2 packet (i + ?bw) = Some ((length packet, None), pc', mc')
      \<and> Q ?mc2 (i + ?bw) (N - 1) pc' mc' pieces frames"
      unfolding Q_def
      by (rule "1.IH" [OF True refl w [symmetric] refl "1.prems"(1) s refl refl refl _ _
            dl2 rs2 wn2 le]) simp_all
    then obtain pc' mc' pieces frames where
      r: "pc_writePacket_loop zw pc1 ?mc2 packet (i + ?bw) = Some ((length packet, None), pc', mc')"
      and q: "Q ?mc2 (i + ?bw) (N - 1) pc' mc' pieces frames"
      by blast
    let ?p = "take ?bw (drop i packet)"
    have cc: "?p @ drop (i + ?bw) packet = drop i packet"
      by (metis add.commute append_take_drop_id drop_drop)
    have nn: "N - 1 - writesNeeded (?r - ?bw) = N - writesNeeded ?r"
      unfolding writesNeeded_step_eq [OF rpos] by simp
    have sq: "compressionSequence mc + 1 + of_nat (length pieces)
        = compressionSequence mc + of_nat (length (?p # pieces))"
      by simp
    from q ff cc have "Q mc i N pc' mc' (?p # pieces) (cbuffer pc1 # frames)"
      unfolding Q_def rem nn sq [symmetric] by simp
    with loop r show ?thesis by metis
  qed
  then show ?case
    unfolding Q_def by simp
qed

lemma framesFit_append:
  "framesFit zw s ps fs \<Longrightarrow> framesFit zw (s + of_nat (length ps)) ps' fs'
     \<Longrightarrow> framesFit zw s (ps @ ps') (fs @ fs')"
proof (induction zw s ps fs rule: framesFit.induct)
  case (2 zw seq p ps f fs)
  have "seq + of_nat (length (p # ps)) = seq + 1 + of_nat (length ps)"
    by simp
  with "2.prems"(2) have "framesFit zw (seq + 1 + of_nat (length ps)) ps' fs'"
    by (simp only:)
  with "2.prems"(1) "2.IH" show ?case by simp
qed simp_all

lemma grow_ok:
  assumes "index pd \<le> length (buffer pd)"
  shows "\<exists>pd'. grow pd n = Inr pd' \<and> index pd' \<le> length (buffer pd')
     \<and> length (buffer pd') + n \<le> bufferCap pd'
     \<and> drop (index pd') (buffer pd') = drop (index pd) (buffer pd)
     \<and> (\<not> bufferNil pd \<longrightarrow> \<not> bufferNil pd')"
  using assms by (auto simp: grow_def Let_def)

lemma fittingFrame_decode:
  assumes zl: "\<forall>x. \<exists>w. zw x = (w, None) \<and> zr w = (x, None)"
    and ff: "fittingFrame zw seq piece frame"
  shows "\<exists>hdr body. frame = hdr @ body \<and> length hdr = 7 \<and> hsequence hdr = seq
     \<and> payload hdr = length body \<and> piece \<noteq> []
     \<and> (uncompressedLength hdr = 0 \<and> body = piece
        \<or> uncompressedLength hdr = length piece
          \<and> decompress zr body (uncompressedLength hdr) = Inr piece)"
proof -
  let ?hdr = "take 7 frame" and ?body = "drop 7 frame"
  from zl obtain w where w: "zw piece = (w, None)" "zr w = (piece, None)" by blast
  have c: "compress zw piece zeroHeader = ((length w, None), zeroHeader @ w)"
    using w(1) by (simp add: compress_result)
  have d: "decompress zr w (length piece) = Inr piece"
    using w(2) by (simp add: decompress_def)
  from ff have l: "7 \<le> length frame" and sq: "hsequence ?hdr = seq" and pn: "0 < length piece"
    and dj: "uncompressedLength ?hdr = 0 \<and> payload ?hdr = length piece \<and> ?body = piece
        \<or> uncompressedLength ?hdr = length piece \<and> payload ?hdr = length w \<and> ?body = w"
    by (auto simp: fittingFrame_def Let_def c)
  from dj d have "payload ?hdr = length ?body
     \<and> (uncompressedLength ?hdr = 0 \<and> ?body = piece
        \<or> uncompressedLength ?hdr = length piece
          \<and> decompress zr ?body (uncompressedLength ?hdr) = Inr piece)"
    by auto
  with l sq pn show ?thesis
    by (intro exI [of _ ?hdr] exI [of _ ?body]) auto
qed

lemma decompressPacket_frame:
  assumes zl: "\<forall>x. \<exists>w. zw x = (w, None) \<and> zr w = (x, None)"
    and ok: "pd_ok pd"
    and ff: "fittingFrame zw (compressionSequence mc) piece frame"
    and b: "buf mc = frame @ rest"
  shows "\<exists>pd' mc'. decompressPacket zr pd mc = (None, pd', mc') \<and> pd_ok pd'
     \<and> drop (index pd') (buffer pd') = drop (index pd) (buffer pd) @ piece
     \<and> buf mc' = rest \<and> compressionSequence mc' = compressionSequence mc + 1
     \<and> sequence mc' = sequence mc"
proof -
  from fittingFrame_decode [OF zl ff] obtain hdr body where
    fr: "frame = hdr @ body" and lh: "length hdr = 7"
    and sq: "hsequence hdr = compressionSequence mc"
    and pl: "payload hdr = length body" and pn: "piece \<noteq> []"
    and dj: "uncompressedLength hdr = 0 \<and> body = piece
        \<or> uncompressedLength hdr = length piece
          \<and> decompress zr body (uncompressedLength hdr) = Inr piece"
    by blast
  let ?pd1 = "(if bufferNil pd
                 then pd\<lparr>buffer := [], bufferCap := defaultDecompressBufferSize, bufferNil := False\<rparr>
                 else pd)"
  let ?pd2 = "(if index ?pd1 > 0 \<and> index ?pd1 = length (buffer ?pd1)
                 then ?pd1\<lparr>index := 0, buffer := []\<rparr>
                 else ?pd1)"
  have p2: "index ?pd2 \<le> length (buffer ?pd2)" "\<not> bufferNil ?pd2"
    "drop (index ?pd2) (buffer ?pd2) = drop (index pd) (buffer pd)"
    using ok by (auto simp: pd_ok_def)
  let ?mc1 = "mc\<lparr>buf := body @ rest\<rparr>"
  let ?mc2 = "?mc1\<lparr>compressionSequence := compressionSequence ?mc1 + 1\<rparr>"
  let ?mc3 = "?mc2\<lparr>buf := rest\<rparr>"
  have r1: "buf_readNext mc 7 = (Inr hdr, ?mc1)"
    using b fr lh by (simp add: buf_readNext_def)
  have r2: "buf_readNext ?mc2 (payload hdr) = (Inr body, ?mc3)"
    using pl by (simp add: buf_readNext_def)
  have sq1: "\<not> hsequence hdr \<noteq> compressionSequence ?mc1" using sq by simp
  have dp: "decompressPacket zr pd mc =
      (if uncompressedLength hdr = 0 then
         (case grow ?pd2 (payload hdr) of
            Inl e \<Rightarrow> (Some e, ?pd2, ?mc3)
          | Inr pd3 \<Rightarrow> (None, pd3\<lparr>buffer := buffer pd3 @ body\<rparr>, ?mc3))
       else
         (case grow ?pd2 (uncompressedLength hdr) of
            Inl e \<Rightarrow> (Some e, ?pd2, ?mc3)
          | Inr pd3 \<Rightarrow>
              (let pd4 = pd3\<lparr>decompressorSet := True\<rparr>
               in case decompress zr body (uncompressedLength hdr) of
                    Inl err \<Rightarrow> (Some err, pd4, ?mc3)
                  | Inr bytes \<Rightarrow> (None, pd4\<lparr>buffer := buffer pd4 @ bytes\<rparr>, ?mc3))))"
    unfolding decompressPacket_def Let_def r1 prod.case sum.case
    apply (simp only: sq1 if_False r2 prod.case sum.case)
    done
  have m3: "buf ?mc3 = rest" "compressionSequence ?mc3 = compressionSequence mc + 1"
    "sequence ?mc3 = sequence mc"
    by simp_all
  show ?thesis
  proof (cases "uncompressedLength hdr = 0")
    case True
    with dj pn have bp: "body = piece" by auto
    from grow_ok [OF p2(1), of "payload hdr"] obtain pd3 where
      g: "grow ?pd2 (payload hdr) = Inr pd3" and g1: "index pd3 \<le> length (buffer pd3)"
      and g2: "length (buffer pd3) + payload hdr \<le> bufferCap pd3"
      and g3: "drop (index pd3) (buffer pd3) = drop (index ?pd2) (buffer ?pd2)"
      and g4: "\<not> bufferNil pd3"
      using p2(2) by blast
    have "decompressPacket zr pd mc = (None, pd3\<lparr>buffer := buffer pd3 @ body\<rparr>, ?mc3)"
      unfolding dp using True g by simp
    moreover have "pd_ok (pd3\<lparr>buffer := buffer pd3 @ body\<rparr>)"
      using g1 g2 g4 pl by (simp add: pd_ok_def)
    moreover have "drop (index (pd3\<lparr>buffer := buffer pd3 @ body\<rparr>))
        (buffer (pd3\<lparr>buffer := buffer pd3 @ body\<rparr>)) = drop (index pd) (buffer pd) @ piece"
      using g1 g3 p2(3) bp by simp
    ultimately show ?thesis using m3 by blast
  next
    case False
    with dj have ul: "uncompressedLength hdr = length piece"
      and dc: "decompress zr body (uncompressedLength hdr) = Inr piece"
      by auto
    from grow_ok [OF p2(1), of "uncompressedLength hdr"] obtain pd3 where
      g: "grow ?pd2 (uncompressedLength hdr) = Inr pd3" and g1: "index pd3 \<le> length (buffer pd3)"
      and g2: "length (buffer pd3) + uncompressedLength hdr \<le> bufferCap pd3"
      and g3: "drop (index pd3) (buffer pd3) = drop (index ?pd2) (buffer ?pd2)"
      and g4: "\<not> bufferNil pd3"
      using p2(2) by blast
    let ?pd5 = "pd3\<lparr>decompressorSet := True, buffer := buffer pd3 @ piece\<rparr>"
    have "decompressPacket zr pd mc = (None, ?pd5, ?mc3)"
      unfolding dp using False g dc by simp
    moreover have "pd_ok ?pd5"
      using g1 g2 g4 ul by (simp add: pd_ok_def)
    moreover have "drop (index ?pd5) (buffer ?pd5) = drop (index pd) (buffer pd) @ piece"
      using g1 g3 p2(3) by simp
    ultimately show ?thesis using m3 by blast
  qed
qed

lemma pd_readNext_loop_frames:
  assumes zl: "\<forall>x. \<exists>w. zw x = (w, None) \<and> zr w = (x, None)"
  shows "framesFit zw (compressionSequence mc) pieces frames \<Longrightarrow> buf mc = concat frames @ rest
     \<Longrightarrow> pd_ok pd
     \<Longrightarrow> need \<le> length (drop (index pd) (buffer pd)) + length (concat pieces)
     \<Longrightarrow> length (drop (index pd) (buffer pd)) < need
     \<Longrightarrow> \<exists>pd' mc' pieces' frames'.
          pd_readNext_loop zr pd mc need = (None, pd', mc') \<and> pd_ok pd'
          \<and> framesFit zw (compressionSequence mc') pieces' frames'
          \<and> buf mc' = concat frames' @ rest
          \<and> drop (index pd') (buffer pd') @ concat pieces'
              = drop (index pd) (buffer pd) @ concat pieces
          \<and> need \<le> length (drop (index pd') (buffer pd'))
          \<and> sequence mc' = sequence mc"
proof (induction pieces arbitrary: frames pd mc)
  case Nil
  then show ?case by simp
next
  case (Cons p ps)
  from Cons.prems(1) obtain f fs where fr: "frames = f # fs"
    by (cases frames) simp_all
  with Cons.prems(1) have ff: "fittingFrame zw (compressionSequence mc) p f"
    and rest: "framesFit zw (compressionSequence mc + 1) ps fs"
    by simp_all
  from Cons.prems(2) fr have b: "buf mc = f @ (concat fs @ rest)" by simp
  from decompressPacket_frame [OF zl Cons.prems(3) ff b] obtain pd1 mc1 where
    d: "decompressPacket zr pd mc = (None, pd1, mc1)" and ok1: "pd_ok pd1"
    and pe: "drop (index pd1) (buffer pd1) = drop (index pd) (buffer pd) @ p"
    and b1: "buf mc1 = concat fs @ rest"
    and c1: "compressionSequence mc1 = compressionSequence mc + 1"
    and s1: "sequence mc1 = sequence mc"
    by blast
  from rest c1 have rest1: "framesFit zw (compressionSequence mc1) ps fs" by simp
  have i1: "index pd1 \<le> length (buffer pd1)" using ok1 by (simp add: pd_ok_def)
  show ?case
  proof (cases "int need \<le> int (length (buffer pd1)) - int (index pd1)")
    case True
    with d have "pd_readNext_loop zr pd mc need = (None, pd1, mc1)"
      by (simp add: pd_readNext_loop.simps [of zr pd mc])
    moreover have "need \<le> length (drop (index pd1) (buffer pd1))"
      using True i1 by simp
    moreover have "drop (index pd1) (buffer pd1) @ concat ps
        = drop (index pd) (buffer pd) @ concat (p # ps)"
      using pe by simp
    ultimately show ?thesis
      using ok1 rest1 b1 s1 by blast
  next
    case False
    with d have loop: "pd_readNext_loop zr pd mc need = pd_readNext_loop zr pd1 mc1 need"
      by (simp add: pd_readNext_loop.simps [of zr pd mc])
    have lt: "length (drop (index pd1) (buffer pd1)) < need"
      using False i1 by simp
    have le: "need \<le> length (drop (index pd1) (buffer pd1)) + length (concat ps)"
      using Cons.prems(4) unfolding pe by simp
    from Cons.IH [OF rest1 b1 ok1 le lt] obtain pd' mc' pieces' frames' where
      r: "pd_readNext_loop zr pd1 mc1 need = (None, pd', mc')" "pd_ok pd'"
        "framesFit zw (compressionSequence mc') pieces' frames'"
        "buf mc' = concat frames' @ rest"
        "drop (index pd') (buffer pd') @ concat pieces'
              = drop (index pd1) (buffer pd1) @ concat ps"
        "need \<le> length (drop (index pd') (buffer pd'))"
        "sequence mc' = sequence mc1"
      by blast
    have "drop (index pd') (buffer pd') @ concat pieces'
              = drop (index pd) (buffer pd) @ concat (p # ps)"
      unfolding r(5) pe by simp
    with r loop s1 show ?thesis by metis
  qed
qed

lemma readBytes_compressed_stream:
  assumes zl: "\<forall>x. \<exists>w. zw x = (w, None) \<and> zr w = (x, None)"
    and ok: "pd_ok (decompressor pb)"
    and ff: "framesFit zw (compressionSequence mc) pieces frames"
    and b: "buf mc = concat frames @ rest"
    and s: "s = drop (index (decompressor pb)) (buffer (decompressor pb)) @ concat pieces"
    and n: "n \<le> length s"
  shows "\<exists>pb' mc' pieces' frames'. readBytes zr pb mc True n = (Inr (take n s), pb', mc')
     \<and> pd_ok (decompressor pb')
     \<and> framesFit zw (compressionSequence mc') pieces' frames'
     \<and> buf mc' = concat frames' @ rest
     \<and> drop n s = drop (index (decompressor pb')) (buffer (decompressor pb')) @ concat pieces'
     \<and> sequence mc' = sequence mc"
proof -
  let ?pd = "decompressor pb"
  have "\<exists>pd' mc' pieces' frames'.
      (if int (length (buffer ?pd)) - int (index ?pd) < int n
       then pd_readNext_loop zr ?pd mc n else (None, ?pd, mc)) = (None, pd', mc')
      \<and> pd_ok pd' \<and> framesFit zw (compressionSequence mc') pieces' frames'
      \<and> buf mc' = concat frames' @ rest
      \<and> drop (index pd') (buffer pd') @ concat pieces' = s
      \<and> n \<le> length (drop (index pd') (buffer pd'))
      \<and> sequence mc' = sequence mc"
  proof (cases "int (length (buffer ?pd)) - int (index ?pd) < int n")
    case False
    then have "n \<le> length (drop (index ?pd) (buffer ?pd))" by simp
    with False ok ff b s show ?thesis by auto
  next
    case True
    have i: "index ?pd \<le> length (buffer ?pd)" using ok by (simp add: pd_ok_def)
    with True have lt: "length (drop (index ?pd) (buffer ?pd)) < n" by simp
    from n s have le: "n \<le> length (drop (index ?pd) (buffer ?pd)) + length (concat pieces)"
      by simp
    from pd_readNext_loop_frames [OF zl ff b ok le lt] True s show ?thesis
      by simp
  qed
  then obtain pd' mc' pieces' frames' where
    r: "(if int (length (buffer ?pd)) - int (index ?pd) < int n
       then pd_readNext_loop zr ?pd mc n else (None, ?pd, mc)) = (None, pd', mc')"
    and ok': "pd_ok pd'" and ff': "framesFit zw (compressionSequence mc') pieces' frames'"
    and b': "buf mc' = concat frames' @ rest"
    and s': "drop (index pd') (buffer pd') @ concat pieces' = s"
    and n': "n \<le> length (drop (index pd') (buffer pd'))"
    and q': "sequence mc' = sequence mc"
    by blast
  let ?pd2 = "pd'\<lparr>index := index pd' + n\<rparr>"
  have rb: "readBytes zr pb mc True n
      = (Inr (take n (drop (index pd') (buffer pd'))), pb\<lparr>decompressor := ?pd2\<rparr>, mc')"
    unfolding readBytes_def pd_readNext_def r by simp
  have t: "take n (drop (index pd') (buffer pd')) = take n s"
    using n' unfolding s' [symmetric] by simp
  have d: "drop n s = drop (index ?pd2) (buffer ?pd2) @ concat pieces'"
    using n' unfolding s' [symmetric] by (simp add: add.commute)
  have ok2: "pd_ok (decompressor (pb\<lparr>decompressor := ?pd2\<rparr>))"
    using ok' n' by (auto simp: pd_ok_def)
  from rb t d ok2 ff' b' q' show ?thesis
    by (intro exI [of _ "pb\<lparr>decompressor := ?pd2\<rparr>"] exI [of _ mc'] exI [of _ pieces']
        exI [of _ frames']) simp
qed

lemma writePacket_unfold:
  assumes "length data = 4 + length p" and "int (length p) \<le> maxAllowedPacket mc"
    and "staleCheck mc = Inr mc1"
  shows "writePacket zw pb mc data compr = writePacket_loop zw pb mc1 data (int (length p)) compr"
  using assms by (simp add: writePacket_def Let_def)

lemma writePacket_plain_frames:
  assumes len: "length data = 4 + length p" and dr: "drop 4 data = p"
    and al: "int (length p) \<le> maxAllowedPacket mc" and sc: "staleCheck mc = Inr mc1"
    and dl: "setWriteDeadline mc1 = None"
    and rs: "responses (netConn mc1) = replicate N WriteAll"
    and cap: "length p div maxPacketSize + 1 \<le> N"
  shows "\<exists>pb' mc'. writePacket zw pb mc data False = Some (None, pb', mc')
     \<and> sent (netConn mc') = sent (netConn mc1) @ concat (specFrames (sequence mc1) p)
     \<and> sequence mc' = sequence mc1 + of_nat (length p div maxPacketSize + 1)"
proof -
  define J where "J = (\<lambda>(pb::packetTransceiver) (c::mysqlConn) (t::byte list) (n::nat).
      setWriteDeadline c = None
      \<and> (\<exists>N'. n \<le> N' \<and> responses (netConn c) = replicate N' WriteAll)
      \<and> sent (netConn c) = sent (netConn mc1) @ t)"
  have step: "\<exists>pb' mc'. sendFrame zw pb c frame False
         = Some (Inr ((length frame, None), pb', mc'))
         \<and> J pb' mc' (t @ frame) n \<and> sequence mc' = sequence c"
    if j: "J pb c t (Suc n)" and l: "4 \<le> length frame" "length frame \<le> 4 + maxPacketSize"
    for pb c t n frame
  proof -
    from j obtain N' where d: "setWriteDeadline c = None" and n: "Suc n \<le> N'"
      and r: "responses (netConn c) = replicate N' WriteAll"
      and s: "sent (netConn c) = sent (netConn mc1) @ t"
      unfolding J_def by blast
    from n r have r': "responses (netConn c) = WriteAll # replicate (N' - 1) WriteAll"
      by (cases N') simp_all
    from l(1) have ne: "frame \<noteq> []" by auto
    let ?conn = "(netConn c)\<lparr>responses := replicate (N' - 1) WriteAll,
        sent := sent (netConn c) @ frame\<rparr>"
    have sf: "sendFrame zw pb c frame False
        = Some (Inr ((length frame, None), pb, c\<lparr>netConn := ?conn\<rparr>))"
      using d sendToNetwork_WriteAll [OF r' ne] by (simp add: sendFrame_def)
    have d': "setWriteDeadline (c\<lparr>netConn := ?conn\<rparr>) = None"
      using d by (auto simp: setWriteDeadline_def split: if_splits)
    have "J pb (c\<lparr>netConn := ?conn\<rparr>) (t @ frame) n"
      unfolding J_def using d' n s by (auto intro: exI [of _ "N' - 1"])
    with sf show ?thesis by auto
  qed
  have upd: "J pb (c\<lparr>sequence := q\<rparr>) t n" if "J pb c t n" for pb c t n q
    using that unfolding J_def by (auto simp: setWriteDeadline_def split: if_splits)
  have j0: "J pb mc1 [] (length p div maxPacketSize + 1 + 0)"
    unfolding J_def using dl rs cap by auto
  from writePacket_loop_stream [of J zw False, OF step upd j0 len dr]
  obtain pb' mc' where
    w: "writePacket_loop zw pb mc1 data (int (length p)) False = Some (None, pb', mc')"
    and j: "J pb' mc' ([] @ concat (specFrames (sequence mc1) p)) 0"
    and s: "sequence mc' = sequence mc1 + of_nat (length p div maxPacketSize + 1)"
    by blast
  from j have "sent (netConn mc') = sent (netConn mc1) @ concat (specFrames (sequence mc1) p)"
    unfolding J_def by simp
  with w s show ?thesis
    unfolding writePacket_unfold [OF len al sc] by blast
qed

lemma writePacket_compressed_frames:
  assumes len: "length data = 4 + length p" and dr: "drop 4 data = p"
    and al: "int (length p) \<le> maxAllowedPacket mc" and sc: "staleCheck mc = Inr mc1"
    and dl: "setWriteDeadline mc1 = None"
    and rs: "responses (netConn mc1) = replicate N WriteAll"
    and cap: "2 * (length p div maxPacketSize + 1) \<le> N"
  shows "\<exists>pb' mc' pieces cframes. writePacket zw pb mc data True = Some (None, pb', mc')
     \<and> sent (netConn mc') = sent (netConn mc1) @ concat cframes
     \<and> framesFit zw (compressionSequence mc1) pieces cframes
     \<and> concat pieces = concat (specFrames (sequence mc1) p)
     \<and> sequence mc' = sequence mc1 + of_nat (length p div maxPacketSize + 1)"
proof -
  define J where "J = (\<lambda>(pb::packetTransceiver) (c::mysqlConn) (t::byte list) (n::nat).
      setWriteDeadline c = None
      \<and> (\<exists>N'. 2 * n \<le> N' \<and> responses (netConn c) = replicate N' WriteAll)
      \<and> (\<exists>pieces cframes. sent (netConn c) = sent (netConn mc1) @ concat cframes
            \<and> framesFit zw (compressionSequence mc1) pieces cframes
            \<and> concat pieces = t
            \<and> compressionSequence c = compressionSequence mc1 + of_nat (length pieces)))"
  have step: "\<exists>pb' mc'. sendFrame zw pb c frame True
         = Some (Inr ((length frame, None), pb', mc'))
         \<and> J pb' mc' (t @ frame) n \<and> sequence mc' = sequence c"
    if j: "J pb c t (Suc n)" and l: "4 \<le> length frame" "length frame \<le> 4 + maxPacketSize"
    for pb c t n frame
  proof -
    from j obtain N' pieces cframes where d: "setWriteDeadline c = None"
      and n: "2 * Suc n \<le> N'"
      and r: "responses (netConn c) = replicate N' WriteAll"
      and s: "sent (netConn c) = sent (netConn mc1) @ concat cframes"
      and f: "framesFit zw (compressionSequence mc1) pieces cframes"
      and cp: "concat pieces = t"
      and cs: "compressionSequence c = compressionSequence mc1 + of_nat (length pieces)"
      unfolding J_def by blast
    from l(1) have pos: "0 < length frame" by auto
    from writesNeeded_frame [OF pos l(2)] have w2: "writesNeeded (length frame) \<le> 2" .
    with n have wn: "writesNeeded (length frame - 0) \<le> N'" by simp
    from pc_writePacket_loop_run [OF d r wn, of zw "compressor pb"]
    obtain pc' mc' ps fs where
      run: "pc_writePacket_loop zw (compressor pb) c frame 0
          = Some ((length frame, None), pc', mc')"
      and f': "framesFit zw (compressionSequence c) ps fs"
      and cp': "concat ps = drop 0 frame"
      and s': "sent (netConn mc') = sent (netConn c) @ concat fs"
      and r': "responses (netConn mc') = replicate (N' - writesNeeded (length frame - 0)) WriteAll"
      and cs': "compressionSequence mc' = compressionSequence c + of_nat (length ps)"
      and d': "setWriteDeadline mc' = None" and q': "sequence mc' = sequence c"
      by auto
    have sf: "sendFrame zw pb c frame True
        = Some (Inr ((length frame, None), pb\<lparr>compressor := pc'\<rparr>, mc'))"
      using run pos by (simp add: sendFrame_def pc_writePacket_def)
    from f' cs have f2: "framesFit zw (compressionSequence mc1 + of_nat (length pieces)) ps fs"
      by simp
    have a1: "2 * n \<le> N' - writesNeeded (length frame - 0)"
      using n w2 by simp
    have a2: "sent (netConn mc') = sent (netConn mc1) @ concat (cframes @ fs)"
      using s s' by simp
    have a3: "concat (pieces @ ps) = t @ frame"
      using cp cp' by simp
    have a4: "compressionSequence mc'
        = compressionSequence mc1 + of_nat (length (pieces @ ps))"
      using cs cs' by simp
    have "J (pb\<lparr>compressor := pc'\<rparr>) mc' (t @ frame) n"
      unfolding J_def using d' r' a1 a2 a3 a4 framesFit_append [OF f f2] by blast
    with sf q' show ?thesis by blast
  qed
  have upd: "J pb (c\<lparr>sequence := q\<rparr>) t n" if "J pb c t n" for pb c t n q
    using that unfolding J_def by (auto simp: setWriteDeadline_def split: if_splits)
  have "sent (netConn mc1) = sent (netConn mc1) @ concat []
      \<and> framesFit zw (compressionSequence mc1) [] []
      \<and> concat [] = ([]::byte list)
      \<and> compressionSequence mc1 = compressionSequence mc1 + of_nat (length ([]::byte list list))"
    by simp
  then have j0: "J pb mc1 [] (length p div maxPacketSize + 1 + 0)"
    unfolding J_def using dl rs cap by (intro conjI exI [of _ N] exI [of _ "[]"]) simp_all
  from writePacket_loop_stream [of J zw True, OF step upd j0 len dr]
  obtain pb' mc' where
    w: "writePacket_loop zw pb mc1 data (int (length p)) True = Some (None, pb', mc')"
    and j: "J pb' mc' ([] @ concat (specFrames (sequence mc1) p)) 0"
    and s: "sequence mc' = sequence mc1 + of_nat (length p div maxPacketSize + 1)"
    by blast
  from j obtain pieces cframes where
    "sent (netConn mc') = sent (netConn mc1) @ concat cframes"
    "framesFit zw (compressionSequence mc1) pieces cframes"
    "concat pieces = concat (specFrames (sequence mc1) p)"
    unfolding J_def by auto
  with w s show ?thesis
    unfolding writePacket_unfold [OF len al sc] by blast
qed

lemma readPacket_plain_frames:
  assumes b: "buf rc = concat (specFrames (sequence rc) p) @ rest" and ne: "p \<noteq> []"
  shows "\<exists>pb' rc'. readPacket zr pbr rc False = (Inr p, pb', rc') \<and> buf rc' = rest
     \<and> sequence rc' = sequence rc + of_nat (length p div maxPacketSize + 1)"
proof -
  define I where "I = (\<lambda>(pb::packetTransceiver) (c::mysqlConn) (s::byte list). buf c = s)"
  have step: "\<exists>pb' mc'. readBytes zr pb c False n = (Inr (take n s), pb', mc')
      \<and> I pb' mc' (drop n s)"
    if "I pb c s" "0 < n" "n \<le> length s" for pb c s n
    using that unfolding I_def by (simp add: readBytes_def buf_readNext_def)
  have upd: "I pb (c\<lparr>sequence := q\<rparr>) s" if "I pb c s" for pb c s q
    using that unfolding I_def by simp
  have i0: "I pbr rc (concat (specFrames (sequence rc) p) @ rest)"
    unfolding I_def by (rule b)
  have pn: "(None::byte list option) = None \<longrightarrow> p \<noteq> []" using ne by simp
  from readPacket_loop_stream [of I zr False, OF step upd i0 pn]
  show ?thesis
    unfolding I_def readPacket_def by (simp add: prevBytes_def)
qed

lemma readPacket_compressed_frames:
  assumes zl: "\<forall>x. \<exists>w. zw x = (w, None) \<and> zr w = (x, None)"
    and ok: "pd_ok (decompressor pbr)"
    and em: "index (decompressor pbr) = length (buffer (decompressor pbr))"
    and ff: "framesFit zw (compressionSequence rc) pieces cframes"
    and cp: "concat pieces = concat (specFrames (sequence rc) p)"
    and b: "buf rc = concat cframes @ rest" and ne: "p \<noteq> []"
  shows "\<exists>pb' rc'. readPacket zr pbr rc True = (Inr p, pb', rc')
     \<and> sequence rc' = sequence rc + of_nat (length p div maxPacketSize + 1)"
proof -
  define I where "I = (\<lambda>(pb::packetTransceiver) (c::mysqlConn) (s::byte list).
      pd_ok (decompressor pb)
      \<and> (\<exists>ps fs. framesFit zw (compressionSequence c) ps fs \<and> buf c = concat fs @ rest
            \<and> s = drop (index (decompressor pb)) (buffer (decompressor pb)) @ concat ps))"
  have step: "\<exists>pb' mc'. readBytes zr pb c True n = (Inr (take n s), pb', mc')
      \<and> I pb' mc' (drop n s)"
    if i: "I pb c s" and n: "0 < n" "n \<le> length s" for pb c s n
  proof -
    from i obtain ps fs where o: "pd_ok (decompressor pb)"
      and f: "framesFit zw (compressionSequence c) ps fs" and bb: "buf c = concat fs @ rest"
      and s: "s = drop (index (decompressor pb)) (buffer (decompressor pb)) @ concat ps"
      unfolding I_def by blast
    from readBytes_compressed_stream [OF zl o f bb s n(2)] show ?thesis
      unfolding I_def by blast
  qed
  have upd: "I pb (c\<lparr>sequence := q\<rparr>) s" if "I pb c s" for pb c s q
    using that unfolding I_def by simp
  have "concat (specFrames (sequence rc) p) @ []
      = drop (index (decompressor pbr)) (buffer (decompressor pbr)) @ concat pieces"
    using em cp by simp
  with ok ff b have i0: "I pbr rc (concat (specFrames (sequence rc) p) @ [])"
    unfolding I_def by blast
  have pn: "(None::byte list option) = None \<longrightarrow> p \<noteq> []" using ne by simp
  from readPacket_loop_stream [of I zr True, OF step upd i0 pn]
  show ?thesis
    unfolding readPacket_def by (auto simp: prevBytes_def)
qed

lemma specFrames_shape:
  "length (specFrames seq p) = length p div maxPacketSize + 1"
  "j < length p div maxPacketSize \<Longrightarrow>
     specFrames seq p ! j
       = plainFrame (seq + of_nat j) (take maxPacketSize (drop (j * maxPacketSize) p))
     \<and> length (take maxPacketSize (drop (j * maxPacketSize) p)) = maxPacketSize"
  "specFrames seq p ! (length p div maxPacketSize)
     = plainFrame (seq + of_nat (length p div maxPacketSize))
         (drop (length p div maxPacketSize * maxPacketSize) p)"
  "length (drop (length p div maxPacketSize * maxPacketSize) p) = length p mod maxPacketSize"
proof -
  let ?m = maxPacketSize and ?k = "length p div maxPacketSize"
  show "length (specFrames seq p) = ?k + 1"
    by (simp add: specFrames_def Let_def)
  show "specFrames seq p ! ?k = plainFrame (seq + of_nat ?k) (drop (?k * ?m) p)"
    by (simp add: specFrames_def Let_def nth_append)
  show "length (drop (?k * ?m) p) = length p mod ?m"
    by (simp add: minus_div_mult_eq_mod)
  assume j: "j < ?k"
  then have "Suc j \<le> ?k" by simp
  then have "Suc j * ?m \<le> ?k * ?m" by (rule mult_le_mono1)
  also have "\<dots> \<le> length p" by simp
  finally have "?m \<le> length p - j * ?m" by simp
  with j show "specFrames seq p ! j
       = plainFrame (seq + of_nat j) (take ?m (drop (j * ?m) p))
     \<and> length (take ?m (drop (j * ?m) p)) = ?m"
    by (simp add: specFrames_def Let_def nth_append)
qed

text \<open>
  C1. A logical packet is the slice \<open>data\<close>: a header slot of four bytes and a payload
  \<open>p\<close>, not empty and within \<open>maxAllowedPacket\<close>. The stale-connection check passes,
  no write deadline fails, and the transport accepts the writes (one for each frame
  without compression, at most two with it). With \<open>k\<close> the quotient and \<open>r\<close> the
  remainder of the length of \<open>p\<close> by \<open>maxPacketSize\<close>, \<open>writePacket\<close> returns without
  error having produced exactly \<open>k + 1\<close> frames with consecutive sequence numbers: \<open>k\<close>
  frames that carry the successive blocks of \<open>maxPacketSize\<close> payload bytes, and one last
  frame that carries the remaining \<open>r\<close> bytes; so for \<open>r = 0\<close> the last frame is the one
  zero-length frame, and for \<open>0 < r\<close> there is none. Without compression these frames
  are what is appended to the transport; with compression what is appended is a sequence
  of frames of the compressor whose pieces, put together, are these frames. For
  \<open>readPacket\<close> on a connection where these bytes arrive, with the same expected
  sequence numbers and nothing pending in the arena, the result is the payload \<open>p\<close>.
  For the compressed path the zlib codec is assumed not to fail and to reproduce its
  input.
\<close>

theorem split_and_reassembly:
  assumes data: "data = slot @ p" and slot: "length slot = 4" and ne: "p \<noteq> []"
    and al: "int (length p) \<le> maxAllowedPacket mc" and sc: "staleCheck mc = Inr mc1"
    and dl: "setWriteDeadline mc1 = None"
    and rs: "responses (netConn mc1) = replicate N WriteAll"
    and cap: "(if compr then 2 else 1) * (length p div maxPacketSize + 1) \<le> N"
    and zl: "compr \<longrightarrow> (\<forall>x. \<exists>w. zw x = (w, None) \<and> zr w = (x, None))"
  shows "\<exists>pb' mc' wire.
      writePacket zw pb mc data compr = Some (None, pb', mc')
      \<and> sent (netConn mc') = sent (netConn mc1) @ wire
      \<and> (\<not> compr \<longrightarrow> wire = concat (specFrames (sequence mc1) p))
      \<and> (compr \<longrightarrow>
           (\<exists>pieces cframes. wire = concat cframes
              \<and> framesFit zw (compressionSequence mc1) pieces cframes
              \<and> concat pieces = concat (specFrames (sequence mc1) p)))
      \<and> length (specFrames (sequence mc1) p) = length p div maxPacketSize + 1
      \<and> (\<forall>j<length p div maxPacketSize.
            specFrames (sequence mc1) p ! j
              = plainFrame (sequence mc1 + of_nat j)
                  (take maxPacketSize (drop (j * maxPacketSize) p))
            \<and> length (take maxPacketSize (drop (j * maxPacketSize) p)) = maxPacketSize)
      \<and> specFrames (sequence mc1) p ! (length p div maxPacketSize)
           = plainFrame (sequence mc1 + of_nat (length p div maxPacketSize))
               (drop (length p div maxPacketSize * maxPacketSize) p)
      \<and> length (drop (length p div maxPacketSize * maxPacketSize) p)
           = length p mod maxPacketSize
      \<and> (\<forall>pbr rc rest.
            buf rc = wire @ rest \<and> sequence rc = sequence mc1
            \<and> compressionSequence rc = compressionSequence mc1
            \<and> pd_ok (decompressor pbr)
            \<and> index (decompressor pbr) = length (buffer (decompressor pbr))
            \<longrightarrow> (\<exists>pbr' rc'. readPacket zr pbr rc compr = (Inr p, pbr', rc')))"
proof -
  let ?seq = "sequence mc1"
  have len: "length data = 4 + length p" and dr: "drop 4 data = p"
    using data slot by simp_all
  note shape = specFrames_shape(1-3) [where seq = "sequence mc1" and p = p]
    specFrames_shape(4) [where p = p]
  have sh: "length (specFrames ?seq p) = length p div maxPacketSize + 1
      \<and> (\<forall>j<length p div maxPacketSize.
            specFrames ?seq p ! j
              = plainFrame (?seq + of_nat j) (take maxPacketSize (drop (j * maxPacketSize) p))
            \<and> length (take maxPacketSize (drop (j * maxPacketSize) p)) = maxPacketSize)
      \<and> specFrames ?seq p ! (length p div maxPacketSize)
           = plainFrame (?seq + of_nat (length p div maxPacketSize))
               (drop (length p div maxPacketSize * maxPacketSize) p)
      \<and> length (drop (length p div maxPacketSize * maxPacketSize) p)
           = length p mod maxPacketSize"
    using shape by blast
  show ?thesis
  proof (cases compr)
    case False
    with cap have c: "length p div maxPacketSize + 1 \<le> N" by simp
    from writePacket_plain_frames [OF len dr al sc dl rs c, of zw pb] obtain pb' mc' where
      w: "writePacket zw pb mc data False = Some (None, pb', mc')"
      and s: "sent (netConn mc') = sent (netConn mc1) @ concat (specFrames ?seq p)"
      by blast
    have rd: "\<exists>pbr' rc'. readPacket zr pbr rc False = (Inr p, pbr', rc')"
      if "buf rc = concat (specFrames ?seq p) @ rest" "sequence rc = ?seq" for pbr rc rest
    proof -
      from that have "buf rc = concat (specFrames (sequence rc) p) @ rest" by simp
      from readPacket_plain_frames [OF this ne, of zr pbr] show ?thesis by blast
    qed
    from False w s sh rd show ?thesis
      by (intro exI [of _ pb'] exI [of _ mc'] exI [of _ "concat (specFrames ?seq p)"]) simp
  next
    case True
    with cap have c: "2 * (length p div maxPacketSize + 1) \<le> N" by simp
    from True zl have z: "\<forall>x. \<exists>w. zw x = (w, None) \<and> zr w = (x, None)" by simp
    from writePacket_compressed_frames [OF len dr al sc dl rs c, of zw pb]
    obtain pb' mc' pieces cframes where
      w: "writePacket zw pb mc data True = Some (None, pb', mc')"
      and s: "sent (netConn mc') = sent (netConn mc1) @ concat cframes"
      and f: "framesFit zw (compressionSequence mc1) pieces cframes"
      and cp: "concat pieces = concat (specFrames ?seq p)"
      by blast
    have rd: "\<exists>pbr' rc'. readPacket zr pbr rc True = (Inr p, pbr', rc')"
      if "buf rc = concat cframes @ rest" "sequence rc = ?seq"
        "compressionSequence rc = compressionSequence mc1" "pd_ok (decompressor pbr)"
        "index (decompressor pbr) = length (buffer (decompressor pbr))" for pbr rc rest
    proof -
      from f that(3) have f': "framesFit zw (compressionSequence rc) pieces cframes" by simp
      from cp that(2) have cp': "concat pieces = concat (specFrames (sequence rc) p)" by simp
      from readPacket_compressed_frames [OF z that(4,5) f' cp' that(1) ne] show ?thesis
        by blast
    qed
    have ex: "\<exists>pieces' cframes'. concat cframes = concat cframes'
              \<and> framesFit zw (compressionSequence mc1) pieces' cframes'
              \<and> concat pieces' = concat (specFrames ?seq p)"
      using f cp by blast
    from True w s sh rd ex show ?thesis
      by (intro exI [of _ pb'] exI [of _ mc'] exI [of _ "concat cframes"]) simp
  qed
qed

text \<open>
  The example is a payload of exactly \<open>maxPacketSize\<close> bytes, written and read with
  compression through a codec that copies its input.
\<close>

theorem split_and_reassembly_witness:
  "\<exists>pb' mc' wire.
      writePacket (\<lambda>x. (x, None)) newTransceiver
        (newConn\<lparr>maxAllowedPacket := 16777215,
                 netConn := idleConn\<lparr>responses := replicate 4 WriteAll\<rparr>\<rparr>)
        ([0, 0, 0, 0] @ replicate 16777215 7) True
      = Some (None, pb', mc')
      \<and> sent (netConn mc') = wire
      \<and> (\<exists>pbr' rc'. readPacket (\<lambda>x. (x, None)) newTransceiver (newConn\<lparr>buf := wire\<rparr>) True
            = (Inr (replicate 16777215 7), pbr', rc'))"
proof -
  let ?mc = "newConn\<lparr>maxAllowedPacket := 16777215,
                 netConn := idleConn\<lparr>responses := replicate 4 WriteAll\<rparr>\<rparr>"
  let ?z = "\<lambda>x::byte list. (x, None::error option)"
  have h: "staleCheck ?mc = Inr ?mc" "setWriteDeadline ?mc = None"
    "responses (netConn ?mc) = replicate 4 WriteAll"
    "int (length (replicate 16777215 (7::byte))) \<le> maxAllowedPacket ?mc"
    "(if True then 2 else 1) * (length (replicate 16777215 (7::byte)) div maxPacketSize + 1) \<le> 4"
    "True \<longrightarrow> (\<forall>x. \<exists>w. ?z x = (w, None) \<and> ?z w = (x, None))"
    "replicate 16777215 (7::byte) \<noteq> []" "length [0, 0, 0, 0 :: byte] = 4"
    by (simp_all add: staleCheck_def setWriteDeadline_def newConn_def idleConn_def
        maxPacketSize_def)
  from split_and_reassembly [OF refl h(8) h(7) h(4) h(1) h(2) h(3) h(5) h(6),
      of newTransceiver]
  obtain pb' mc' wire where
    w: "writePacket ?z newTransceiver ?mc ([0, 0, 0, 0] @ replicate 16777215 7) True
        = Some (None, pb', mc')"
    and s: "sent (netConn mc') = sent (netConn ?mc) @ wire"
    and r: "\<forall>pbr rc rest.
            buf rc = wire @ rest \<and> sequence rc = sequence ?mc
            \<and> compressionSequence rc = compressionSequence ?mc
            \<and> pd_ok (decompressor pbr)
            \<and> index (decompressor pbr) = length (buffer (decompressor pbr))
            \<longrightarrow> (\<exists>pbr' rc'. readPacket ?z pbr rc True
                   = (Inr (replicate 16777215 7), pbr', rc'))"
    by blast
  have "buf (newConn\<lparr>buf := wire\<rparr>) = wire @ [] \<and> sequence (newConn\<lparr>buf := wire\<rparr>) = sequence ?mc
      \<and> compressionSequence (newConn\<lparr>buf := wire\<rparr>) = compressionSequence ?mc
      \<and> pd_ok (decompressor newTransceiver)
      \<and> index (decompressor newTransceiver) = length (buffer (decompressor newTransceiver))"
    by (simp add: newConn_def newTransceiver_def pd_ok_def)
  with r have "\<exists>pbr' rc'. readPacket ?z newTransceiver (newConn\<lparr>buf := wire\<rparr>) True
                   = (Inr (replicate 16777215 7), pbr', rc')"
    by blast
  moreover from s have "sent (netConn mc') = wire"
    by (simp add: newConn_def idleConn_def)
  ultimately show ?thesis using w by blast
qed


end
